theory Spec2Isabelle
  imports Complex_Main
begin

section \<open>Lapped transforms: kernels, strided views and in-place transforms\<close>

text \<open>
  A shallow embedding of \<^verbatim>\<open>utils.py\<close>. The module works on numpy arrays, so the
  embedding has two layers:
  \<^item> a store of buffers, and arrays as views on it: a buffer, the position of the first
    element, a shape and the strides, both counted in elements (every array of the module
    holds 64-bit floats, so a stride in bytes is eight times the stride used here);
  \<^item> matrices handled as values (the kernels returned by \<^verbatim>\<open>mdct\<close>, \<^verbatim>\<open>dct4\<close> and
    \<^verbatim>\<open>make_twoframe\<close>, and the matrix \<^verbatim>\<open>T\<close> read by \<^verbatim>\<open>transform\<close>), with their
    entries idealised as real numbers.
  Every exception of the source is a value of \<open>error\<close>. \<^verbatim>\<open>as_strided\<close> checks nothing
  about the memory a view addresses; an access outside the buffer, whose behaviour numpy
  leaves undefined, is the outcome \<open>OutOfBounds\<close> of the model.
\<close>

subsection \<open>Errors\<close>

datatype error =
    ValueError
  | ZeroDivisionError
  | IndexError
  | TypeError
  | OutOfBounds
  | Unsupported

definition ebind :: "error + 'a \<Rightarrow> ('a \<Rightarrow> error + 'b) \<Rightarrow> error + 'b" where
  "ebind m f = (case m of Inl e \<Rightarrow> Inl e | Inr v \<Rightarrow> f v)"

definition py_floordiv :: "int \<Rightarrow> int \<Rightarrow> error + int" where
  \<comment> \<open>Python's \<^verbatim>\<open>a // b\<close> on ints: floor division, as \<open>div\<close> on \<open>int\<close> is.\<close>
  "py_floordiv a b = (if b = 0 then Inl ZeroDivisionError else Inr (a div b))"

subsection \<open>Buffers and strided views\<close>

type_synonym 'a store = "'a list list"

record ndarray =
  buf :: nat
  offset :: int
  shape :: "nat list"
  strides :: "int list"

definition address :: "ndarray \<Rightarrow> nat list \<Rightarrow> int" where
  "address x idx = offset x + sum_list (map2 (\<lambda>i st. int i * st) idx (strides x))"

definition load :: "'a store \<Rightarrow> nat \<Rightarrow> int \<Rightarrow> 'a option" where
  "load s b a =
     (if b < length s \<and> 0 \<le> a \<and> a < int (length (s ! b))
      then Some ((s ! b) ! nat a) else None)"

definition store_at :: "'a store \<Rightarrow> nat \<Rightarrow> int \<Rightarrow> 'a \<Rightarrow> error + 'a store" where
  "store_at s b a v =
     (if b < length s \<and> 0 \<le> a \<and> a < int (length (s ! b))
      then Inr (s[b := (s ! b)[nat a := v]]) else Inl OutOfBounds)"

fun indices :: "nat list \<Rightarrow> nat list list" where
  \<comment> \<open>All index tuples of a shape, in row-major order.\<close>
  "indices [] = [[]]"
| "indices (d # ds) = concat (map (\<lambda>i. map ((#) i) (indices ds)) [0..<d])"

definition elements :: "'a store \<Rightarrow> ndarray \<Rightarrow> 'a option list" where
  \<comment> \<open>The logical content of a view in row-major order; \<open>None\<close> marks a cell outside its buffer.\<close>
  "elements s x = map (\<lambda>idx. load s (buf x) (address x idx)) (indices (shape x))"

definition tolist :: "'a store \<Rightarrow> ndarray \<Rightarrow> error + 'a list" where
  "tolist s x = (case those (elements s x) of None \<Rightarrow> Inl OutOfBounds | Some vs \<Rightarrow> Inr vs)"

definition getitem :: "'a store \<Rightarrow> ndarray \<Rightarrow> nat list \<Rightarrow> error + 'a" where
  \<comment> \<open>\<^verbatim>\<open>x[i, j]\<close> with non-negative indices.\<close>
  "getitem s x idx =
     (if list_all2 (<) idx (shape x)
      then case load s (buf x) (address x idx) of
             None \<Rightarrow> Inl OutOfBounds
           | Some v \<Rightarrow> Inr v
      else Inl IndexError)"

definition setitem :: "'a store \<Rightarrow> ndarray \<Rightarrow> nat list \<Rightarrow> 'a \<Rightarrow> error + 'a store" where
  \<comment> \<open>\<^verbatim>\<open>x[i, j] = v\<close> with non-negative indices.\<close>
  "setitem s x idx v =
     (if list_all2 (<) idx (shape x) then store_at s (buf x) (address x idx) v
      else Inl IndexError)"

fun c_strides :: "nat list \<Rightarrow> int list" where
  \<comment> \<open>The strides numpy gives a freshly allocated array: the product of the later
      dimensions, a dimension of size 0 counting as 1.\<close>
  "c_strides [] = []"
| "c_strides (d # ds) = prod_list (map (\<lambda>k. if k = 0 then 1 else int k) ds) # c_strides ds"

definition ndarray_copy :: "'a store \<Rightarrow> ndarray \<Rightarrow> error + ('a store \<times> ndarray)" where
  \<comment> \<open>\<^verbatim>\<open>x.copy()\<close>: a new buffer holding the content of \<open>x\<close> in row-major order.\<close>
  "ndarray_copy s x =
     (case those (elements s x) of
        None \<Rightarrow> Inl OutOfBounds
      | Some vs \<Rightarrow>
          Inr (s @ [vs],
               \<lparr>buf = length s, offset = 0, shape = shape x, strides = c_strides (shape x)\<rparr>))"

definition as_strided :: "ndarray \<Rightarrow> int list \<Rightarrow> int list \<Rightarrow> error + ndarray" where
  \<comment> \<open>\<^verbatim>\<open>np.lib.stride_tricks.as_strided(x, shape=.., strides=..)\<close>: the data pointer of
      \<open>x\<close> under a new shape and new strides. numpy refuses a negative dimension and a
      strides tuple of another length than the shape; it checks nothing else.\<close>
  "as_strided x shp strd =
     (if length shp \<noteq> length strd then Inl ValueError
      else if list_ex (\<lambda>d. d < 0) shp then Inl ValueError
      else Inr \<lparr>buf = buf x, offset = offset x, shape = map nat shp, strides = strd\<rparr>)"

definition shape_at :: "ndarray \<Rightarrow> nat \<Rightarrow> error + nat" where
  \<comment> \<open>\<^verbatim>\<open>x.shape[k]\<close>\<close>
  "shape_at x k = (if k < length (shape x) then Inr (shape x ! k) else Inl IndexError)"

fun contig_from :: "int \<Rightarrow> (nat \<times> int) list \<Rightarrow> bool" where
  "contig_from sd [] = True"
| "contig_from sd ((d, st) # rest) =
     (if d = 1 then contig_from sd rest else st = sd \<and> contig_from (sd * int d) rest)"

definition c_contiguous :: "ndarray \<Rightarrow> bool" where
  \<comment> \<open>numpy's \<^verbatim>\<open>C_CONTIGUOUS\<close> flag: dimensions are scanned from the last one, a
      dimension of size 1 is skipped, an array with a dimension of size 0 is contiguous.\<close>
  "c_contiguous x =
     (0 \<in> set (shape x) \<or> contig_from 1 (rev (zip (shape x) (strides x))))"

definition ravel :: "'a store \<Rightarrow> ndarray \<Rightarrow> error + ('a store \<times> ndarray)" where
  \<comment> \<open>\<^verbatim>\<open>x.ravel()\<close>: a one-dimensional view when \<open>x\<close> is contiguous, a copy otherwise.\<close>
  "ravel s x =
     (if c_contiguous x
      then Inr (s, \<lparr>buf = buf x, offset = offset x, shape = [prod_list (shape x)], strides = [1]\<rparr>)
      else ebind (ndarray_copy s x) (\<lambda>(s', y).
             Inr (s', \<lparr>buf = buf y, offset = offset y, shape = [prod_list (shape y)], strides = [1]\<rparr>)))"

subsection \<open>OverlapView: \<^verbatim>\<open>lap\<close>, \<^verbatim>\<open>unlap\<close>, \<^verbatim>\<open>flatten\<close>, \<^verbatim>\<open>lap_like\<close>, \<^verbatim>\<open>copy\<close>\<close>

definition lap :: "'a store \<Rightarrow> ndarray \<Rightarrow> int \<Rightarrow> bool \<Rightarrow> error + ('a store \<times> ndarray)" where
  "lap s x L cp =
     ebind (if cp then ndarray_copy s x else Inr (s, x)) (\<lambda>(s1, x1).
     ebind (shape_at x1 0) (\<lambda>r.
     ebind (shape_at x1 1) (\<lambda>c.
     ebind (as_strided x1 [int r - L + 1, int c * L] (strides x1)) (\<lambda>v.
     Inr (s1, v)))))"

definition unlap :: "'a store \<Rightarrow> ndarray \<Rightarrow> int \<Rightarrow> bool \<Rightarrow> error + ('a store \<times> ndarray)" where
  "unlap s x L cp =
     ebind (shape_at x 0) (\<lambda>r.
     ebind (shape_at x 1) (\<lambda>c.
     ebind (py_floordiv (int c) L) (\<lambda>q.
     ebind (as_strided x [int r + L - 1, q] (strides x)) (\<lambda>outval.
     if cp then ndarray_copy s outval else Inr (s, outval)))))"

definition flatten :: "'a store \<Rightarrow> ndarray \<Rightarrow> int \<Rightarrow> bool \<Rightarrow> error + ('a store \<times> ndarray)" where
  "flatten s x L cp = ebind (unlap s x L cp) (\<lambda>(s', u). ravel s' u)"

definition lap_like :: "ndarray \<Rightarrow> ndarray \<Rightarrow> error + ndarray" where
  \<comment> \<open>The source passes \<^verbatim>\<open>y.strides\<close>, which numpy counts in bytes, to a view that keeps
      the element type of \<open>x\<close>. Strides are counted in elements here, which is the same
      thing when \<open>x\<close> and \<open>y\<close> have one item size, as the arrays of one store have (and
      as the two arrays have inside \<^verbatim>\<open>copy\<close>). Arrays of two item sizes are outside the
      model.\<close>
  "lap_like x y = as_strided x (map int (shape y)) (strides y)"

definition copy :: "'a store \<Rightarrow> ndarray \<Rightarrow> int \<Rightarrow> error + ('a store \<times> ndarray)" where
  \<comment> \<open>The parameter \<open>L\<close> is accepted and never read: \<^verbatim>\<open>flatten(x, copy=True)\<close> runs
      with the default overlap factor 2.\<close>
  "copy s x L =
     ebind (flatten s x 2 True) (\<lambda>(s', new).
     ebind (lap_like new x) (\<lambda>v.
     Inr (s', v)))"

subsection \<open>Matrices as values\<close>

record matrix =
  nrows :: nat
  ncols :: nat
  rows :: "real list list"

definition entry :: "matrix \<Rightarrow> nat \<Rightarrow> nat \<Rightarrow> real" where
  "entry m k n = rows m ! k ! n"

definition wf_matrix :: "matrix \<Rightarrow> bool" where
  "wf_matrix m \<longleftrightarrow> length (rows m) = nrows m \<and> list_all (\<lambda>r. length r = ncols m) (rows m)"

definition apply_matrix :: "matrix \<Rightarrow> real list \<Rightarrow> real list" where
  \<comment> \<open>The matrix-vector product: one sum of products for each row of \<open>T\<close>.\<close>
  "apply_matrix T v = map (\<lambda>r. sum_list (map2 (*) r v)) (rows T)"

definition matvec :: "matrix \<Rightarrow> real list \<Rightarrow> error + real list" where
  \<comment> \<open>\<^verbatim>\<open>T @ v\<close> for a two-dimensional \<open>T\<close> and a one-dimensional \<open>v\<close>: the inner
      dimensions must agree.\<close>
  "matvec T v = (if ncols T = length v then Inr (apply_matrix T v) else Inl ValueError)"

subsection \<open>BlockTransformer: \<^verbatim>\<open>transform\<close>\<close>

definition len :: "ndarray \<Rightarrow> error + nat" where
  \<comment> \<open>\<^verbatim>\<open>len(x)\<close>: the first dimension; an array without dimensions has no length.\<close>
  "len x = (case shape x of [] \<Rightarrow> Inl TypeError | d # ds \<Rightarrow> Inr d)"

definition row_view :: "ndarray \<Rightarrow> nat \<Rightarrow> error + ndarray" where
  \<comment> \<open>\<^verbatim>\<open>x[i, :]\<close>: the view of row \<open>i\<close>; two indices are too many for an array of one
      dimension.\<close>
  "row_view x i =
     (case (shape x, strides x) of
        (d # d' # ds, st # sts) \<Rightarrow>
          if i < d
          then Inr \<lparr>buf = buf x, offset = offset x + int i * st, shape = d' # ds, strides = sts\<rparr>
          else Inl IndexError
      | _ \<Rightarrow> Inl IndexError)"

fun write_elems :: "'a store \<Rightarrow> nat \<Rightarrow> (int \<times> 'a) list \<Rightarrow> error + 'a store" where
  "write_elems s b [] = Inr s"
| "write_elems s b ((a, v) # rest) = ebind (store_at s b a v) (\<lambda>s'. write_elems s' b rest)"

definition assign_row :: "'a store \<Rightarrow> ndarray \<Rightarrow> nat \<Rightarrow> 'a list \<Rightarrow> error + 'a store" where
  \<comment> \<open>\<^verbatim>\<open>row[:] = y\<close> for a one-dimensional view of length \<open>c\<close>: \<open>y\<close> must have the
      length \<open>c\<close> or the length 1 (it is then broadcast); the shapes are compared before
      anything is written.\<close>
  "assign_row s rv c y =
     (if length y = c \<or> length y = 1
      then write_elems s (buf rv)
             (map (\<lambda>j. (address rv [j], y ! (if length y = 1 then 0 else j))) [0..<c])
      else Inl ValueError)"

definition transform_row :: "real store \<Rightarrow> ndarray \<Rightarrow> matrix \<Rightarrow> nat \<Rightarrow> error + real store" where
  \<comment> \<open>One turn of the loop: \<^verbatim>\<open>x[i, :] = T @ x[i, :]\<close>. The product is built in a
      temporary before the assignment. A row that is itself an array of two dimensions or
      more (\<open>x\<close> of three or more) would need the batched product, which is left out.\<close>
  "transform_row s x T i =
     ebind (row_view x i) (\<lambda>rv.
       case shape rv of
         [c] \<Rightarrow> ebind (tolist s rv) (\<lambda>v. ebind (matvec T v) (\<lambda>y. assign_row s rv c y))
       | _ \<Rightarrow> Inl Unsupported)"

fun transform_rows :: "real store \<Rightarrow> ndarray \<Rightarrow> matrix \<Rightarrow> nat list \<Rightarrow> error + real store" where
  "transform_rows s x T [] = Inr s"
| "transform_rows s x T (i # is) =
     ebind (transform_row s x T i) (\<lambda>s'. transform_rows s' x T is)"

definition transform :: "real store \<Rightarrow> ndarray \<Rightarrow> matrix \<Rightarrow> error + (real store \<times> ndarray)" where
  "transform s x T =
     ebind (len x) (\<lambda>n.
     ebind (transform_rows s x T [0..<n]) (\<lambda>s'.
     Inr (s', x)))"

subsection \<open>KernelBuilder: \<^verbatim>\<open>mdct\<close>, \<^verbatim>\<open>dct4\<close>\<close>

definition arange :: "int \<Rightarrow> real list" where
  \<comment> \<open>\<^verbatim>\<open>np.arange(M, dtype=float)\<close>: empty when \<open>M\<close> is not positive.\<close>
  "arange M = map real [0..<nat M]"

definition meshgrid :: "real list \<Rightarrow> real list \<Rightarrow> matrix \<times> matrix" where
  \<comment> \<open>\<^verbatim>\<open>np.meshgrid(xs, ys)\<close>: two grids of \<open>length ys\<close> rows and \<open>length xs\<close> columns,
      the first repeating \<open>xs\<close> in every row, the second \<open>ys\<close> in every column.\<close>
  "meshgrid xs ys =
     (\<lparr>nrows = length ys, ncols = length xs, rows = map (\<lambda>y. xs) ys\<rparr>,
      \<lparr>nrows = length ys, ncols = length xs, rows = map (\<lambda>y. map (\<lambda>x. y) xs) ys\<rparr>)"

definition zip_matrix :: "(real \<Rightarrow> real \<Rightarrow> real) \<Rightarrow> matrix \<Rightarrow> matrix \<Rightarrow> matrix" where
  \<comment> \<open>An element-wise expression over two grids of the same shape.\<close>
  "zip_matrix f a b =
     \<lparr>nrows = nrows a, ncols = ncols a, rows = map2 (\<lambda>ra rb. map2 f ra rb) (rows a) (rows b)\<rparr>"

definition mdct :: "int \<Rightarrow> error + matrix" where
  \<comment> \<open>\<^verbatim>\<open>-N // 2\<close> is \<^verbatim>\<open>(-N) // 2\<close>. \<^verbatim>\<open>np.pi / N\<close> divides a Python float by a Python
      int and raises for \<open>N = 0\<close>; \<^verbatim>\<open>np.sqrt\<close> of a negative number is a warning
      and not an exception (the grids are empty then, so no entry is computed).\<close>
  "mdct N =
     (let M = N * 2;
          shift = (- N) div 2;
          (n, k) = meshgrid (arange M) (arange N)
      in if N = 0 then Inl ZeroDivisionError
         else Inr (zip_matrix
                (\<lambda>n k. cos (pi / real_of_int N * (n + real_of_int shift + 1 / 2) * (k + 1 / 2))
                         / sqrt (real_of_int N / 2)) n k))"

definition dct4 :: "int \<Rightarrow> int option \<Rightarrow> error + matrix" where
  "dct4 N M_arg =
     (let M = (case M_arg of None \<Rightarrow> N | Some M' \<Rightarrow> M');
          (n, k) = meshgrid (arange M) (arange N)
      in if N = 0 then Inl ZeroDivisionError
         else Inr (zip_matrix
                (\<lambda>n k. cos (pi / real_of_int N * (n + 1 / 2) * (k + 1 / 2))
                         / sqrt (real_of_int N / 2)) n k))"

subsection \<open>FoldingTransform: \<^verbatim>\<open>make_twoframe\<close>\<close>

definition slice_index :: "nat \<Rightarrow> int \<Rightarrow> int" where
  \<comment> \<open>A bound of a Python slice on a sequence of length \<open>n\<close>: a negative bound counts
      from the end, and the result is clipped to \<open>0..n\<close>.\<close>
  "slice_index n a = (if a < 0 then max (a + int n) 0 else min a (int n))"

definition slice :: "nat \<Rightarrow> int option \<Rightarrow> int option \<Rightarrow> nat \<times> nat" where
  \<comment> \<open>\<^verbatim>\<open>start:stop\<close> on a sequence of length \<open>n\<close>, as the half-open range it selects.\<close>
  "slice n start stop =
     (let lo = (case start of None \<Rightarrow> 0 | Some a \<Rightarrow> slice_index n a);
          hi = (case stop of None \<Rightarrow> int n | Some b \<Rightarrow> slice_index n b)
      in (nat lo, nat (max lo hi)))"

definition get_block :: "matrix \<Rightarrow> nat \<times> nat \<Rightarrow> nat \<times> nat \<Rightarrow> matrix" where
  \<comment> \<open>\<^verbatim>\<open>m[r0:r1, c0:c1]\<close>\<close>
  "get_block m rs cs =
     (case (rs, cs) of ((r0, r1), (c0, c1)) \<Rightarrow>
        \<lparr>nrows = r1 - r0, ncols = c1 - c0,
         rows = map (\<lambda>r. take (c1 - c0) (drop c0 r)) (take (r1 - r0) (drop r0 (rows m)))\<rparr>)"

definition set_block :: "matrix \<Rightarrow> nat \<times> nat \<Rightarrow> nat \<times> nat \<Rightarrow> matrix \<Rightarrow> error + matrix" where
  \<comment> \<open>\<^verbatim>\<open>out[r0:r1, c0:c1] = src\<close>: each dimension of \<open>src\<close> must have the size of the
      target's or the size 1 (it is then broadcast).\<close>
  "set_block out rs cs src =
     (case (rs, cs) of ((r0, r1), (c0, c1)) \<Rightarrow>
        if (nrows src = r1 - r0 \<or> nrows src = 1) \<and> (ncols src = c1 - c0 \<or> ncols src = 1)
        then Inr (out\<lparr>rows :=
               map (\<lambda>i. if r0 \<le> i \<and> i < r1
                         then take c0 (rows out ! i)
                              @ map (\<lambda>j. rows src ! (if nrows src = 1 then 0 else i - r0)
                                                    ! (if ncols src = 1 then 0 else j))
                                    [0..<c1 - c0]
                              @ drop c1 (rows out ! i)
                         else rows out ! i)
                   [0..<nrows out]\<rparr>)
        else Inl ValueError)"

definition eye :: "nat \<Rightarrow> matrix" where
  "eye M = \<lparr>nrows = M, ncols = M,
            rows = map (\<lambda>i. map (\<lambda>j. if i = j then 1 else 0) [0..<M]) [0..<M]\<rparr>"

definition make_twoframe :: "matrix \<Rightarrow> bool \<Rightarrow> error + matrix" where
  "make_twoframe data trim =
     (let N = int (nrows data div 2);
          R = nrows data;
          M = ncols data;
          out = eye M
      in ebind (set_block out (slice M (Some N) (Some (2 * N))) (slice M (Some N) (Some (3 * N)))
                  (get_block data (slice R (Some N) None) (slice M (Some (2 * N)) None)))
           (\<lambda>out1.
         ebind (set_block out1 (slice M (Some (2 * N)) (Some (3 * N)))
                  (slice M (Some N) (Some (3 * N)))
                  (get_block data (slice R None (Some N)) (slice M None (Some (2 * N)))))
           (\<lambda>out2.
         Inr (if trim
              then get_block out2 (slice M (Some N) (Some (- N))) (slice M (Some N) (Some (- N)))
              else out2))))"

subsection \<open>Vocabulary of the properties\<close>



definition framed :: "'a store \<Rightarrow> ndarray \<Rightarrow> nat \<Rightarrow> nat \<Rightarrow> bool" where
  \<comment> \<open>A framed signal of \<open>R\<close> frames of length \<open>C\<close>, stored frame after frame inside its
      buffer: the layout numpy gives an array it allocates.\<close>
  "framed s x R C \<longleftrightarrow>
     shape x = [R, C] \<and> strides x = c_strides [R, C] \<and> buf x < length s \<and>
     0 \<le> offset x \<and> offset x + int (R * C) \<le> int (length (s ! buf x))"

definition read_row :: "'a store \<Rightarrow> ndarray \<Rightarrow> nat \<Rightarrow> error + 'a list" where
  \<comment> \<open>The values of \<^verbatim>\<open>x[i, :]\<close> in a given store.\<close>
  "read_row s x i = ebind (row_view x i) (tolist s)"

definition overwrite :: "'a list \<Rightarrow> nat \<Rightarrow> 'a list \<Rightarrow> 'a list" where
  \<comment> \<open>The cells of a buffer with the values \<open>ys\<close> stored from position \<open>p\<close> on.\<close>
  "overwrite cells p ys = take p cells @ ys @ drop (p + length ys) cells"


definition plain :: "'a store \<Rightarrow> ndarray \<Rightarrow> nat \<Rightarrow> nat \<Rightarrow> bool" where
  \<comment> \<open>A plain array of shape \<open>(R, C)\<close>: every element lies inside its buffer and no two
      elements share a cell. Nothing is asked of the strides.\<close>
  "plain s x R C \<longleftrightarrow>
     shape x = [R, C] \<and> length (strides x) = 2 \<and>
     list_all (\<lambda>idx. load s (buf x) (address x idx) \<noteq> None) (indices [R, C]) \<and>
     distinct (map (address x) (indices [R, C]))"

definition store_all :: "(int \<times> 'a) list \<Rightarrow> 'a list \<Rightarrow> 'a list" where
  \<comment> \<open>The cells of a buffer after a sequence of writes, each a position and a value.\<close>
  "store_all avs cells = fold (\<lambda>(a, v) c. c[nat a := v]) avs cells"

section \<open>Basic facts about errors, index tuples and element lists\<close>

lemma ebind_Inr [simp]: "ebind (Inr v) f = f v"
  by (simp add: ebind_def)

lemma ebind_Inl [simp]: "ebind (Inl e) f = Inl e"
  by (simp add: ebind_def)

lemma ebind_eq_Inr:
  "ebind m f = Inr r \<longleftrightarrow> (\<exists>v. m = Inr v \<and> f v = Inr r)"
  by (cases m) simp_all

lemma those_map_Some [simp]: "those (map Some xs) = Some xs"
  by (induction xs) simp_all

lemma those_eq_Some: "those xs = Some ys \<longleftrightarrow> xs = map Some ys"
proof (induction xs arbitrary: ys)
  case Nil
  then show ?case by auto
next
  case (Cons a xs)
  then show ?case by (cases a) (auto split: option.splits)
qed

lemma concat_rows_upt:
  "concat (map (\<lambda>i. map (g i) [0..<C]) [0..<R]) = map (\<lambda>k. g (k div C) (k mod C)) [0..<R * C]"
proof (induction R)
  case 0
  then show ?case by simp
next
  case (Suc R)
  have "[0..<R * C + C] = [0..<R * C] @ [R * C..<R * C + C]"
    by (rule upt_add_eq_append) simp
  moreover have "[R * C..<R * C + C] = map (\<lambda>j. j + R * C) [0..<C]"
    by (simp only: map_add_upt add.commute [of C])
  moreover have "map (\<lambda>k. g (k div C) (k mod C)) (map (\<lambda>j. j + R * C) [0..<C]) = map (g R) [0..<C]"
    by (simp add: o_def)
  moreover have "Suc R * C = R * C + C" by simp
  ultimately show ?case using Suc by (simp only: upt_Suc_append [of 0 R] map_append concat_append concat.simps list.map append_Nil2 simp_thms le0 if_True)
qed

lemma indices_1d: "indices [n] = map (\<lambda>i. [i]) [0..<n]"
  by (simp add: o_def map_concat)

lemma indices_2d: "indices [R, C] = map (\<lambda>k. [k div C, k mod C]) [0..<R * C]"
proof -
  have "indices [R, C] = concat (map (\<lambda>i. map (\<lambda>j. [i, j]) [0..<C]) [0..<R])"
    by (simp add: indices_1d o_def)
  then show ?thesis by (simp add: concat_rows_upt)
qed

lemma address_2d: "strides x = [s0, s1] \<Longrightarrow> address x [i, j] = offset x + int i * s0 + int j * s1"
  by (simp add: address_def)

lemma address_1d: "strides x = [s0] \<Longrightarrow> address x [i] = offset x + int i * s0"
  by (simp add: address_def)

lemma elements_2d:
  "shape x = [R, C] \<Longrightarrow>
   elements s x = map (\<lambda>k. load s (buf x) (address x [k div C, k mod C])) [0..<R * C]"
  by (simp add: elements_def indices_2d o_def del: indices.simps)

lemma elements_1d:
  "shape x = [n] \<Longrightarrow> elements s x = map (\<lambda>k. load s (buf x) (address x [k])) [0..<n]"
  by (simp add: elements_def indices_1d o_def del: indices.simps)

lemma length_elements_2d: "shape x = [R, C] \<Longrightarrow> length (elements s x) = R * C"
  by (simp add: elements_2d)

lemma c_strides_2d: "c_strides [R, C] = [if C = 0 then 1 else int C, 1]"
  by simp

lemma elements_fresh_2d:
  assumes "b < length s" and "s ! b = vs" and "length vs = R * C"
  shows "elements s \<lparr>buf = b, offset = 0, shape = [R, C], strides = c_strides [R, C]\<rparr> = map Some vs"
proof -
  let ?x = "\<lparr>buf = b, offset = 0, shape = [R, C], strides = c_strides [R, C]\<rparr>"
  have "load s b (address ?x [k div C, k mod C]) = Some (vs ! k)" if "k < R * C" for k
  proof -
    from that have "C \<noteq> 0" by (cases C) simp_all
    then have "address ?x [k div C, k mod C] = int (k div C) * int C + int (k mod C)"
      by (simp add: address_def)
    also have "\<dots> = int k"
      by (metis div_mult_mod_eq of_nat_add of_nat_mult)
    finally have "address ?x [k div C, k mod C] = int k" .
    moreover from that have "int k < int R * int C"
      by (metis of_nat_less_iff of_nat_mult)
    ultimately show ?thesis using assms by (simp add: load_def)
  qed
  then have "elements s ?x = map (\<lambda>k. Some (vs ! k)) [0..<R * C]"
    by (simp add: elements_2d)
  also have "\<dots> = map Some (map ((!) vs) [0..<length vs])"
    by (simp add: assms o_def)
  finally show ?thesis by (simp only: map_nth)
qed

lemma elements_fresh_1d:
  assumes "b < length s" and "s ! b = vs" and "length vs = n"
  shows "elements s \<lparr>buf = b, offset = 0, shape = [n], strides = [1]\<rparr> = map Some vs"
proof -
  let ?x = "\<lparr>buf = b, offset = 0, shape = [n], strides = [1]\<rparr>"
  have "elements s ?x = map (\<lambda>k. Some (vs ! k)) [0..<n]"
    using assms by (simp add: elements_1d address_def load_def)
  also have "\<dots> = map Some (map ((!) vs) [0..<length vs])"
    by (simp add: assms o_def)
  finally show ?thesis by (simp only: map_nth)
qed

lemma tolist_Inr: "tolist s x = Inr vs \<longleftrightarrow> elements s x = map Some vs"
proof
  assume "tolist s x = Inr vs"
  then show "elements s x = map Some vs"
    by (simp add: tolist_def those_eq_Some split: option.splits)
next
  assume "elements s x = map Some vs"
  then show "tolist s x = Inr vs" by (simp add: tolist_def)
qed

lemma getitem_2d_of_tolist:
  assumes "shape x = [R, C]" and "tolist s x = Inr vs" and "i < R" and "j < C"
  shows "getitem s x [i, j] = Inr (vs ! (i * C + j))"
proof -
  from assms(3,4) have k: "i * C + j < R * C"
    by (metis add.commute mult.commute mult_Suc_right nat_add_left_cancel_less
        less_le_trans mult_le_mono1 Suc_leI)
  from assms(1,2) have e: "elements s x = map Some vs" and l: "length vs = R * C"
    using length_elements_2d [of x R C s] by (simp_all add: tolist_Inr)
  have "elements s x ! (i * C + j) = load s (buf x) (address x [i, j])"
    using k assms(4) by (simp add: elements_2d [OF assms(1)])
  with e k l have "load s (buf x) (address x [i, j]) = Some (vs ! (i * C + j))" by simp
  then show ?thesis using assms by (simp add: getitem_def)
qed

lemma getitem_1d_of_tolist:
  assumes "shape x = [n]" and "tolist s x = Inr vs" and "k < n"
  shows "getitem s x [k] = Inr (vs ! k)"
proof -
  from assms(1,2) have e: "elements s x = map Some vs"
    by (simp add: tolist_Inr)
  then have l: "length vs = n"
    using assms(1) by (metis elements_1d length_map length_upt minus_nat.diff_0)
  have "elements s x ! k = load s (buf x) (address x [k])"
    using assms(3) by (simp add: elements_1d [OF assms(1)])
  with e l assms(3) have "load s (buf x) (address x [k]) = Some (vs ! k)" by simp
  then show ?thesis using assms by (simp add: getitem_def)
qed

lemma index_2d_less: "i < R \<Longrightarrow> j < C \<Longrightarrow> i * C + j < R * (C::nat)"
  by (metis add.commute mult.commute mult_Suc_right nat_add_left_cancel_less
        less_le_trans mult_le_mono1 Suc_leI)

lemma ndarray_copy_Inr:
  "tolist s x = Inr vs \<Longrightarrow>
   ndarray_copy s x
     = Inr (s @ [vs], \<lparr>buf = length s, offset = 0, shape = shape x, strides = c_strides (shape x)\<rparr>)"
  by (simp add: tolist_Inr ndarray_copy_def)

lemma c_contiguous_fresh_2d:
  "c_contiguous \<lparr>buf = b, offset = o', shape = [R, C], strides = c_strides [R, C]\<rparr>"
  by (simp add: c_contiguous_def)

lemma take_drop_nth_map:
  "p + W \<le> length cells \<Longrightarrow> map (\<lambda>j. cells ! (p + j)) [0..<W] = take W (drop p cells)"
  by (rule nth_equalityI) simp_all

section \<open>Properties of the overlap views\<close>

subsection \<open>Round trip of \<^verbatim>\<open>lap\<close> and \<^verbatim>\<open>unlap\<close>\<close>

text \<open>
  Claim C1. Let \<open>x\<close> be a framed signal of shape \<open>(R, C)\<close> whose cells all lie in its
  buffer (its content in row-major order is \<open>vs\<close>), and let \<open>L\<close> be an overlap factor,
  \<open>1 \<le> L \<le> R\<close>. With the default \<^verbatim>\<open>copy=True\<close> everywhere, \<^verbatim>\<open>lap(x, L)\<close> returns a
  view \<open>v\<close> of shape \<open>(R - L + 1, C * L)\<close>, \<^verbatim>\<open>unlap(v, L)\<close> returns an array of shape
  \<open>(R, C)\<close> equal to \<open>x\<close> element by element, and \<^verbatim>\<open>flatten(v, L)\<close> returns the
  one-dimensional array of length \<open>R * C\<close> whose element \<open>i * C + j\<close> is \<open>x[i, j]\<close>: the
  row-major linearisation of \<open>x\<close>. No layout is asked of \<open>x\<close>: \<^verbatim>\<open>lap\<close> copies it
  into a fresh row-major buffer first.
\<close>

theorem lap_unlap_roundtrip:
  assumes shp: "shape x = [R, C]" and content: "tolist s x = Inr vs"
    and L: "1 \<le> L" "L \<le> int R"
  shows "\<exists>s1 v s2 u s3 f.
     lap s x L True = Inr (s1, v) \<and> shape v = [nat (int R - L + 1), nat (int C * L)] \<and>
     unlap s1 v L True = Inr (s2, u) \<and> shape u = [R, C] \<and> tolist s2 u = Inr vs \<and>
     (\<forall>i<R. \<forall>j<C. getitem s2 u [i, j] = getitem s x [i, j]) \<and>
     flatten s1 v L True = Inr (s3, f) \<and> shape f = [R * C] \<and> tolist s3 f = Inr vs \<and>
     (\<forall>i<R. \<forall>j<C. getitem s3 f [i * C + j] = getitem s x [i, j])"
proof -
  define s1 where "s1 = s @ [vs]"
  define s2 where "s2 = s1 @ [vs]"
  define x1 where "x1 = \<lparr>buf = length s, offset = 0, shape = [R, C], strides = c_strides [R, C]\<rparr>"
  define v where "v = \<lparr>buf = length s, offset = 0,
                        shape = [nat (int R - L + 1), nat (int C * L)], strides = c_strides [R, C]\<rparr>"
  define u where "u = \<lparr>buf = Suc (length s), offset = 0, shape = [R, C], strides = c_strides [R, C]\<rparr>"
  define f where "f = \<lparr>buf = Suc (length s), offset = 0, shape = [R * C], strides = [1::int]\<rparr>"
  have len: "length vs = R * C"
    using length_elements_2d [OF shp, of s] content by (simp add: tolist_Inr)
  have copy1: "ndarray_copy s x = Inr (s1, x1)"
    using ndarray_copy_Inr [OF content] by (simp add: shp s1_def x1_def)
  have nn: "0 \<le> int C * L" "\<not> int C * L < 0"
    using L by (simp_all add: not_less)
  have lap_eq: "lap s x L True = Inr (s1, v)"
    using L nn by (simp add: lap_def copy1 shape_at_def as_strided_def x1_def v_def)
  have x1_content: "tolist s1 x1 = Inr vs"
    unfolding tolist_Inr x1_def by (rule elements_fresh_2d) (simp_all add: s1_def len)
  have q: "py_floordiv (int (nat (int C * L))) L = Inr (int C)"
    using L nn by (simp add: py_floordiv_def)
  have restr: "as_strided v [int (nat (int R - L + 1)) + L - 1, int C] (strides v) = Inr x1"
    using L by (simp add: as_strided_def v_def x1_def)
  have copy2: "ndarray_copy s1 x1 = Inr (s2, u)"
    using ndarray_copy_Inr [OF x1_content] by (simp add: s2_def u_def x1_def s1_def)
  have unlap_eq: "unlap s1 v L True = Inr (s2, u)"
    using q restr copy2 by (simp add: unlap_def shape_at_def v_def)
  have u_content: "tolist s2 u = Inr vs"
    unfolding tolist_Inr u_def
    by (rule elements_fresh_2d) (simp_all add: s2_def s1_def len nth_append)
  have u_items: "getitem s2 u [i, j] = getitem s x [i, j]" if "i < R" "j < C" for i j
    using getitem_2d_of_tolist [OF _ u_content that] getitem_2d_of_tolist [OF shp content that]
    by (simp add: u_def)
  have ravel_eq: "ravel s2 u = Inr (s2, f)"
    using c_contiguous_fresh_2d [of "Suc (length s)" 0 R C]
    by (simp add: ravel_def u_def f_def)
  have flatten_eq: "flatten s1 v L True = Inr (s2, f)"
    by (simp add: flatten_def unlap_eq ravel_eq)
  have f_content: "tolist s2 f = Inr vs"
    unfolding tolist_Inr f_def
    by (rule elements_fresh_1d) (simp_all add: s2_def s1_def len nth_append)
  have f_items: "getitem s2 f [i * C + j] = getitem s x [i, j]" if "i < R" "j < C" for i j
    using getitem_1d_of_tolist [OF _ f_content index_2d_less [OF that]]
      getitem_2d_of_tolist [OF shp content that]
    by (simp add: f_def)
  have "shape v = [nat (int R - L + 1), nat (int C * L)]" "shape u = [R, C]" "shape f = [R * C]"
    by (simp_all add: v_def u_def f_def)
  with lap_eq unlap_eq u_content u_items flatten_eq f_content f_items
  show ?thesis by blast
qed

theorem lap_unlap_roundtrip_witness:
  "lap [[0, 10, 11, 0, 12, 13, 0, 14, 15::int]]
       \<lparr>buf = 0, offset = 1, shape = [3, 2], strides = [3, 1]\<rparr> 2 True
     = Inr ([[0, 10, 11, 0, 12, 13, 0, 14, 15], [10, 11, 12, 13, 14, 15]],
            \<lparr>buf = 1, offset = 0, shape = [2, 4], strides = [2, 1]\<rparr>) \<and>
   unlap [[0, 10, 11, 0, 12, 13, 0, 14, 15], [10, 11, 12, 13, 14, 15::int]]
       \<lparr>buf = 1, offset = 0, shape = [2, 4], strides = [2, 1]\<rparr> 2 True
     = Inr ([[0, 10, 11, 0, 12, 13, 0, 14, 15], [10, 11, 12, 13, 14, 15], [10, 11, 12, 13, 14, 15]],
            \<lparr>buf = 2, offset = 0, shape = [3, 2], strides = [2, 1]\<rparr>) \<and>
   tolist [[0, 10, 11, 0, 12, 13, 0, 14, 15], [10, 11, 12, 13, 14, 15], [10, 11, 12, 13, 14, 15::int]]
       \<lparr>buf = 2, offset = 0, shape = [3, 2], strides = [2, 1]\<rparr>
     = Inr [10, 11, 12, 13, 14, 15] \<and>
   flatten [[0, 10, 11, 0, 12, 13, 0, 14, 15], [10, 11, 12, 13, 14, 15::int]]
       \<lparr>buf = 1, offset = 0, shape = [2, 4], strides = [2, 1]\<rparr> 2 True
     = Inr ([[0, 10, 11, 0, 12, 13, 0, 14, 15], [10, 11, 12, 13, 14, 15], [10, 11, 12, 13, 14, 15]],
            \<lparr>buf = 2, offset = 0, shape = [6], strides = [1]\<rparr>) \<and>
   tolist [[0, 10, 11, 0, 12, 13, 0, 14, 15], [10, 11, 12, 13, 14, 15], [10, 11, 12, 13, 14, 15::int]]
       \<lparr>buf = 2, offset = 0, shape = [6], strides = [1]\<rparr>
     = Inr [10, 11, 12, 13, 14, 15]"
proof -
  let ?s = "[[0, 10, 11, 0, 12, 13, 0, 14, 15::int]]"
  let ?x = "\<lparr>buf = 0, offset = 1, shape = [3, 2], strides = [3, 1]\<rparr>"
  let ?s1 = "[[0, 10, 11, 0, 12, 13, 0, 14, 15], [10, 11, 12, 13, 14, 15::int]]"
  let ?v = "\<lparr>buf = 1, offset = 0, shape = [2, 4], strides = [2, 1]\<rparr>"
  have shp: "shape ?x = [3, 2]" by simp
  have content: "tolist ?s ?x = Inr [10, 11, 12, 13, 14, 15]" by code_simp
  have run_lap: "lap ?s ?x 2 True = Inr (?s1, ?v)" by code_simp
  have run_unlap: "unlap ?s1 ?v 2 True
     = Inr ([[0, 10, 11, 0, 12, 13, 0, 14, 15], [10, 11, 12, 13, 14, 15], [10, 11, 12, 13, 14, 15]],
            \<lparr>buf = 2, offset = 0, shape = [3, 2], strides = [2, 1]\<rparr>)" by code_simp
  have run_flatten: "flatten ?s1 ?v 2 True
     = Inr ([[0, 10, 11, 0, 12, 13, 0, 14, 15], [10, 11, 12, 13, 14, 15], [10, 11, 12, 13, 14, 15]],
            \<lparr>buf = 2, offset = 0, shape = [6], strides = [1]\<rparr>)" by code_simp
  from lap_unlap_roundtrip [OF shp content, of 2] run_lap run_unlap run_flatten
  show ?thesis by auto
qed

subsection \<open>A lapped view without a copy\<close>

lemma setitem_then_getitem:
  assumes idx: "list_all2 (<) idx (shape v)"
    and inb: "buf v < length s" "0 \<le> address v idx" "address v idx < int (length (s ! buf v))"
  shows "setitem s v idx a = Inr (s[buf v := (s ! buf v)[nat (address v idx) := a]])"
    and "\<And>w idx'. buf w = buf v \<Longrightarrow> address w idx' = address v idx \<Longrightarrow>
           list_all2 (<) idx' (shape w) \<Longrightarrow>
           getitem (s[buf v := (s ! buf v)[nat (address v idx) := a]]) w idx' = Inr a"
  using assms by (simp_all add: setitem_def store_at_def getitem_def load_def)

lemma div_less_of_less_mult: "j < C * L \<Longrightarrow> j div C < (L::nat)"
  by (simp add: less_mult_imp_div_less mult.commute)

lemma cell_of_tolist:
  assumes "shape x = [R, C]" and "tolist s x = Inr vs" and "i < R" and "j < C"
  shows "buf x < length s \<and> 0 \<le> address x [i, j] \<and>
         address x [i, j] < int (length (s ! buf x))"
proof -
  from getitem_2d_of_tolist [OF assms]
  have "load s (buf x) (address x [i, j]) \<noteq> None"
    by (auto simp add: getitem_def split: if_splits option.splits)
  then show ?thesis by (simp add: load_def split: if_splits)
qed

text \<open>
  Claim C2, as amended. Let \<open>x\<close> be a framed signal of shape \<open>(R, C)\<close> whose cells all lie
  in its buffer and whose row stride is \<open>C\<close> times its column stride, so that every frame
  starts where the frame before it ends; numpy's row-major layout, with the strides
  \<open>(C, 1)\<close> in elements, is the usual case. Let \<open>L\<close> be an overlap factor, \<open>1 \<le> L \<le> R\<close>.
  Then \<^verbatim>\<open>lap(x, L, copy=False)\<close> returns a view \<open>v\<close> on the buffer of \<open>x\<close> and leaves the
  store as it is (nothing is allocated or duplicated); \<open>v\<close> has the shape
  \<open>(R - L + 1, C * L)\<close>; the element \<open>v[i, j]\<close> is the storage cell of
  \<open>x[i + j div C, j mod C]\<close>, a valid index of \<open>x\<close>; and after writing a value to
  \<open>v[i, j]\<close> the value is read from \<open>x\<close> at that index, and from \<open>v\<close> at every index that
  denotes the same element of \<open>x\<close>.
\<close>

theorem lap_view_aliases_input:
  assumes shp: "shape x = [R, C]" and str: "strides x = [s0, s1]"
    and layout: "C = 0 \<or> s0 = int C * s1"
    and content: "tolist s x = Inr vs"
    and L: "1 \<le> L" "L \<le> int R"
  shows "\<exists>v. lap s x L False = Inr (s, v) \<and> buf v = buf x \<and>
     shape v = [nat (int R - L + 1), nat (int C * L)] \<and>
     (\<forall>i<nat (int R - L + 1). \<forall>j<nat (int C * L).
        i + j div C < R \<and> j mod C < C \<and>
        address v [i, j] = address x [i + j div C, j mod C] \<and>
        (\<forall>a. \<exists>s'. setitem s v [i, j] a = Inr s' \<and>
               getitem s' x [i + j div C, j mod C] = Inr a \<and>
               (\<forall>i'<nat (int R - L + 1). \<forall>j'<nat (int C * L).
                  i' + j' div C = i + j div C \<longrightarrow> j' mod C = j mod C \<longrightarrow>
                  getitem s' v [i', j'] = Inr a)))"
proof -
  define v where "v = \<lparr>buf = buf x, offset = offset x,
                        shape = [nat (int R - L + 1), nat (int C * L)], strides = [s0, s1]\<rparr>"
  have nn: "\<not> int C * L < 0" using L by (simp add: not_less)
  have v_sel: "buf v = buf x" "shape v = [nat (int R - L + 1), nat (int C * L)]"
    by (simp_all add: v_def)
  have lap_eq: "lap s x L False = Inr (s, v)"
    using L nn by (simp add: lap_def shape_at_def as_strided_def shp str v_def)
  have width: "nat (int C * L) = C * nat L"
    using L by (simp add: nat_mult_distrib)
  have cell: "i + j div C < R \<and> j mod C < C \<and>
        address v [i, j] = address x [i + j div C, j mod C] \<and>
        0 \<le> address v [i, j] \<and> address v [i, j] < int (length (s ! buf x)) \<and>
        buf x < length s"
    if i: "i < nat (int R - L + 1)" and j: "j < nat (int C * L)" for i j
  proof -
    from j have C: "C \<noteq> 0" by (cases C) simp_all
    with layout have s0: "s0 = int C * s1" by simp
    from j have "j div C < nat L" unfolding width by (rule div_less_of_less_mult)
    with i L have row: "i + j div C < R" by linarith
    from C have col: "j mod C < C" by simp
    have "int j = int (j div C) * int C + int (j mod C)"
      by (metis div_mult_mod_eq of_nat_add of_nat_mult)
    then have "int j * s1 = int (j div C) * (int C * s1) + int (j mod C) * s1"
      by (simp add: algebra_simps)
    then have same: "address v [i, j] = address x [i + j div C, j mod C]"
      by (simp add: address_def v_def str s0 algebra_simps)
    from cell_of_tolist [OF shp content row col] same row col show ?thesis by simp
  qed
  have "\<exists>s'. setitem s v [i, j] a = Inr s' \<and>
               getitem s' x [i + j div C, j mod C] = Inr a \<and>
               (\<forall>i'<nat (int R - L + 1). \<forall>j'<nat (int C * L).
                  i' + j' div C = i + j div C \<longrightarrow> j' mod C = j mod C \<longrightarrow>
                  getitem s' v [i', j'] = Inr a)"
    if i: "i < nat (int R - L + 1)" and j: "j < nat (int C * L)" for i j a
  proof -
    let ?s' = "s[buf v := (s ! buf v)[nat (address v [i, j]) := a]]"
    have idx: "list_all2 (<) [i, j] (shape v)" using i j by (simp add: v_sel)
    from cell [OF i j] have bv: "buf v < length s" and lo: "0 \<le> address v [i, j]"
      and hi: "address v [i, j] < int (length (s ! buf v))"
      and row: "i + j div C < R" and col: "j mod C < C"
      and same: "address x [i + j div C, j mod C] = address v [i, j]"
      by (simp_all add: v_sel)
    note sg = setitem_then_getitem [OF idx bv lo hi, where a = a]
    have "getitem ?s' x [i + j div C, j mod C] = Inr a"
      using row col same by (intro sg(2)) (simp_all add: v_sel shp)
    moreover have "getitem ?s' v [i', j'] = Inr a"
      if i': "i' < nat (int R - L + 1)" and j': "j' < nat (int C * L)"
        and eq: "i' + j' div C = i + j div C" "j' mod C = j mod C" for i' j'
    proof -
      from cell [OF i' j'] eq same
      have "address v [i', j'] = address v [i, j]" by simp
      then show ?thesis using i' j' by (intro sg(2)) (simp_all add: v_sel)
    qed
    ultimately show ?thesis using sg(1) by blast
  qed
  with cell lap_eq v_sel show ?thesis
    by (intro exI [of _ v]) simp
qed

theorem lap_view_aliases_input_witness:
  "tolist [[10, 0, 11, 0, 12, 0, 13, 0, 14, 0, 15, 0::int]]
          \<lparr>buf = 0, offset = 0, shape = [3, 2], strides = [4, 2]\<rparr>
     = Inr [10, 11, 12, 13, 14, 15] \<and>
   lap [[10, 0, 11, 0, 12, 0, 13, 0, 14, 0, 15, 0::int]]
       \<lparr>buf = 0, offset = 0, shape = [3, 2], strides = [4, 2]\<rparr> 2 False
     = Inr ([[10, 0, 11, 0, 12, 0, 13, 0, 14, 0, 15, 0]],
            \<lparr>buf = 0, offset = 0, shape = [2, 4], strides = [4, 2]\<rparr>) \<and>
   setitem [[10, 0, 11, 0, 12, 0, 13, 0, 14, 0, 15, 0::int]]
       \<lparr>buf = 0, offset = 0, shape = [2, 4], strides = [4, 2]\<rparr> [0, 3] 99
     = Inr [[10, 0, 11, 0, 12, 0, 99, 0, 14, 0, 15, 0]] \<and>
   getitem [[10, 0, 11, 0, 12, 0, 99, 0, 14, 0, 15, 0::int]]
       \<lparr>buf = 0, offset = 0, shape = [3, 2], strides = [4, 2]\<rparr> [1, 1] = Inr 99 \<and>
   getitem [[10, 0, 11, 0, 12, 0, 99, 0, 14, 0, 15, 0::int]]
       \<lparr>buf = 0, offset = 0, shape = [2, 4], strides = [4, 2]\<rparr> [1, 1] = Inr 99"
proof -
  let ?s = "[[10, 0, 11, 0, 12, 0, 13, 0, 14, 0, 15, 0::int]]"
  let ?x = "\<lparr>buf = 0, offset = 0, shape = [3, 2], strides = [4, 2]\<rparr>"
  let ?v = "\<lparr>buf = 0, offset = 0, shape = [2, 4], strides = [4, 2]\<rparr>"
  have shp: "shape ?x = [3, 2]" and str: "strides ?x = [4, 2]" by simp_all
  have layout: "(2::nat) = 0 \<or> (4::int) = int 2 * 2" by simp
  have content: "tolist ?s ?x = Inr [10, 11, 12, 13, 14, 15]" by code_simp
  have run_lap: "lap ?s ?x 2 False = Inr (?s, ?v)" by code_simp
  have run_set: "setitem ?s ?v [0, 3] 99 = Inr [[10, 0, 11, 0, 12, 0, 99, 0, 14, 0, 15, 0]]"
    by code_simp
  from lap_view_aliases_input [OF shp str layout content, of 2] run_lap
  have "\<forall>i<nat (int 3 - 2 + 1). \<forall>j<nat (int 2 * 2).
          (\<forall>a. \<exists>s'. setitem ?s ?v [i, j] a = Inr s' \<and>
               getitem s' ?x [i + j div 2, j mod 2] = Inr a \<and>
               (\<forall>i'<nat (int 3 - 2 + 1). \<forall>j'<nat (int 2 * 2).
                  i' + j' div 2 = i + j div 2 \<longrightarrow> j' mod 2 = j mod 2 \<longrightarrow>
                  getitem s' ?v [i', j'] = Inr a))"
    by auto
  from this [rule_format, of 0 3 99] run_set
  have x_sees: "getitem [[10, 0, 11, 0, 12, 0, 99, 0, 14, 0, 15, 0::int]] ?x [0 + 3 div 2, 3 mod 2]
                  = Inr 99"
    and others: "\<forall>i'<nat (int 3 - 2 + 1). \<forall>j'<nat (int 2 * 2).
                  i' + j' div 2 = 0 + 3 div 2 \<longrightarrow> j' mod 2 = 3 mod 2 \<longrightarrow>
                  getitem [[10, 0, 11, 0, 12, 0, 99, 0, 14, 0, 15, 0::int]] ?v [i', j'] = Inr 99"
    by auto
  from others [rule_format, of 1 1]
  have "getitem [[10, 0, 11, 0, 12, 0, 99, 0, 14, 0, 15, 0::int]] ?v [1, 1] = Inr 99"
    by simp
  with content run_lap run_set x_sees show ?thesis by simp
qed

text \<open>
  The claim as first stated is for every framed signal. \<^verbatim>\<open>lap\<close> hands the strides of
  \<open>x\<close> to the view as they are, so the layout decides which cells the view reaches. For
  the last two columns of a row-major array of three rows and three columns (row stride
  3, column stride 1, frames of length 2) the element \<open>v[0, 2]\<close> is the cell between the
  first two frames and not the cell of \<open>x[1, 0]\<close>: a write to it is not seen in \<open>x\<close>.
\<close>

theorem lap_view_strided_counterexample:
  "tolist [[0, 10, 11, 0, 12, 13, 0, 14, 15::int]]
          \<lparr>buf = 0, offset = 1, shape = [3, 2], strides = [3, 1]\<rparr>
     = Inr [10, 11, 12, 13, 14, 15] \<and>
   lap [[0, 10, 11, 0, 12, 13, 0, 14, 15::int]]
       \<lparr>buf = 0, offset = 1, shape = [3, 2], strides = [3, 1]\<rparr> 2 False
     = Inr ([[0, 10, 11, 0, 12, 13, 0, 14, 15]],
            \<lparr>buf = 0, offset = 1, shape = [2, 4], strides = [3, 1]\<rparr>) \<and>
   address \<lparr>buf = 0, offset = 1, shape = [2, 4], strides = [3, 1]\<rparr> [0, 2] = 3 \<and>
   address \<lparr>buf = 0, offset = 1, shape = [3, 2], strides = [3, 1]\<rparr> [0 + 2 div 2, 2 mod 2] = 4 \<and>
   setitem [[0, 10, 11, 0, 12, 13, 0, 14, 15::int]]
       \<lparr>buf = 0, offset = 1, shape = [2, 4], strides = [3, 1]\<rparr> [0, 2] 99
     = Inr [[0, 10, 11, 99, 12, 13, 0, 14, 15]] \<and>
   getitem [[0, 10, 11, 99, 12, 13, 0, 14, 15::int]]
       \<lparr>buf = 0, offset = 1, shape = [3, 2], strides = [3, 1]\<rparr> [0 + 2 div 2, 2 mod 2] = Inr 12 \<and>
   tolist [[0, 10, 11, 99, 12, 13, 0, 14, 15::int]]
          \<lparr>buf = 0, offset = 1, shape = [3, 2], strides = [3, 1]\<rparr>
     = Inr [10, 11, 12, 13, 14, 15]"
  by code_simp

subsection \<open>Views that stay inside their buffer\<close>






subsection \<open>\<^verbatim>\<open>lap_like\<close> checks nothing\<close>




subsection \<open>The overlap argument of \<^verbatim>\<open>copy\<close>\<close>

text \<open>
  Claim C10. The argument \<open>L\<close> of \<^verbatim>\<open>copy\<close> has no effect: for every store, every
  array \<open>x\<close> and all \<open>L1\<close>, \<open>L2\<close> the two calls give the same outcome, hence results of
  the same shape with the same elements. The body flattens with the default overlap
  factor 2 whatever \<open>L\<close> is.
\<close>

theorem copy_overlap_argument_unused:
  "copy s x L1 = copy s x L2 \<and>
   (\<forall>s1 v1 s2 v2. copy s x L1 = Inr (s1, v1) \<longrightarrow> copy s x L2 = Inr (s2, v2) \<longrightarrow>
      shape v1 = shape v2 \<and> tolist s1 v1 = tolist s2 v2)"
  by (simp add: copy_def)

theorem copy_overlap_argument_unused_witness:
  "copy [[10, 11, 12, 13, 14, 15::int]] \<lparr>buf = 0, offset = 0, shape = [2, 4], strides = [2, 1]\<rparr> 2
     = Inr ([[10, 11, 12, 13, 14, 15], [10, 11, 12, 13, 14, 15]],
            \<lparr>buf = 1, offset = 0, shape = [2, 4], strides = [2, 1]\<rparr>) \<and>
   copy [[10, 11, 12, 13, 14, 15::int]] \<lparr>buf = 0, offset = 0, shape = [2, 4], strides = [2, 1]\<rparr> 7
     = Inr ([[10, 11, 12, 13, 14, 15], [10, 11, 12, 13, 14, 15]],
            \<lparr>buf = 1, offset = 0, shape = [2, 4], strides = [2, 1]\<rparr>)"
proof -
  have run: "copy [[10, 11, 12, 13, 14, 15::int]]
               \<lparr>buf = 0, offset = 0, shape = [2, 4], strides = [2, 1]\<rparr> 2
     = Inr ([[10, 11, 12, 13, 14, 15], [10, 11, 12, 13, 14, 15]],
            \<lparr>buf = 1, offset = 0, shape = [2, 4], strides = [2, 1]\<rparr>)"
    by code_simp
  from copy_overlap_argument_unused
         [of "[[10, 11, 12, 13, 14, 15::int]]"
             "\<lparr>buf = 0, offset = 0, shape = [2, 4], strides = [2, 1]\<rparr>" 2 7] run
  show ?thesis by simp
qed

subsection \<open>Views lapped with the factor 2\<close>

lemma lap_two_view:
  assumes fr: "framed s a R C" and R2: "2 \<le> R" and C1: "1 \<le> C"
  shows "lap s a 2 False
     = Inr (s, \<lparr>buf = buf a, offset = offset a, shape = [R - 1, 2 * C], strides = [int C, 1]\<rparr>)"
proof -
  from fr have "shape a = [R, C]" "strides a = c_strides [R, C]" by (simp_all add: framed_def)
  moreover have "nat (int R - 2 + 1) = R - 1" using R2 by simp
  moreover have "nat (int C * 2) = 2 * C" by simp
  ultimately show ?thesis
    using R2 C1 by (simp add: lap_def shape_at_def as_strided_def)
qed

lemma lapped_cell_in_signal:
  assumes "k < (R - 1) * (2 * C)" and "2 \<le> R"
  shows "k div (2 * C) * C + k mod (2 * C) < R * (C::nat)"
proof -
  from assms(1) have C: "0 < 2 * C" by (cases C) simp_all
  from assms(1) have "k div (2 * C) < R - 1"
    by (simp add: less_mult_imp_div_less)
  then have "k div (2 * C) + 2 \<le> R" by simp
  then have "(k div (2 * C) + 2) * C \<le> R * C" by (rule mult_le_mono1)
  moreover from C have "k mod (2 * C) < 2 * C" by (rule mod_less_divisor)
  ultimately show ?thesis by (simp add: add_mult_distrib)
qed

lemma tolist_lapped_two:
  assumes b: "b < length s" and room: "p + R * C \<le> length (s ! b)" and R2: "2 \<le> R"
  shows "tolist s \<lparr>buf = b, offset = int p, shape = [R - 1, 2 * C], strides = [int C, 1]\<rparr>
     = Inr (map (\<lambda>k. (s ! b) ! (p + (k div (2 * C) * C + k mod (2 * C)))) [0..<(R - 1) * (2 * C)])"
proof -
  let ?v = "\<lparr>buf = b, offset = int p, shape = [R - 1, 2 * C], strides = [int C, 1]\<rparr>"
  have "load s b (address ?v [k div (2 * C), k mod (2 * C)])
          = Some ((s ! b) ! (p + (k div (2 * C) * C + k mod (2 * C))))"
    if "k < (R - 1) * (2 * C)" for k
  proof -
    have "address ?v [k div (2 * C), k mod (2 * C)]
            = int (p + (k div (2 * C) * C + k mod (2 * C)))"
      by (simp add: address_def)
    moreover from lapped_cell_in_signal [OF that R2] room
    have "p + (k div (2 * C) * C + k mod (2 * C)) < length (s ! b)" by simp
    ultimately show ?thesis using b by (simp add: load_def del: of_nat_add of_nat_mult)
  qed
  then have "elements s ?v
      = map (\<lambda>k. Some ((s ! b) ! (p + (k div (2 * C) * C + k mod (2 * C))))) [0..<(R - 1) * (2 * C)]"
    by (simp add: elements_2d)
  also have "\<dots> = map Some
      (map (\<lambda>k. (s ! b) ! (p + (k div (2 * C) * C + k mod (2 * C)))) [0..<(R - 1) * (2 * C)])"
    by (simp add: o_def)
  finally show ?thesis by (simp only: tolist_Inr)
qed

lemma tolist_framed:
  assumes "framed s a R C"
  shows "tolist s a = Inr (take (R * C) (drop (nat (offset a)) (s ! buf a)))"
proof -
  define p where "p = nat (offset a)"
  from assms have o0: "0 \<le> offset a"
    and o1: "offset a + int (R * C) \<le> int (length (s ! buf a))"
    unfolding framed_def by blast+
  then have room: "p + R * C \<le> length (s ! buf a)" unfolding p_def by linarith
  from assms o0 have shp: "shape a = [R, C]" and str: "strides a = c_strides [R, C]"
    and b: "buf a < length s" and off: "offset a = int p"
    by (simp_all add: framed_def p_def)
  have "load s (buf a) (address a [k div C, k mod C]) = Some ((s ! buf a) ! (p + k))"
    if "k < R * C" for k
  proof -
    from that have "C \<noteq> 0" by (cases C) simp_all
    then have "address a [k div C, k mod C] = int p + (int (k div C) * int C + int (k mod C))"
      by (simp add: address_def str off)
    also have "int (k div C) * int C + int (k mod C) = int k"
      by (metis div_mult_mod_eq of_nat_add of_nat_mult)
    finally have "address a [k div C, k mod C] = int (p + k)" by simp
    moreover from that room have "p + k < length (s ! buf a)" by simp
    ultimately show ?thesis using b by (simp add: load_def del: of_nat_add)
  qed
  then have "elements s a = map (\<lambda>k. Some ((s ! buf a) ! (p + k))) [0..<R * C]"
    by (simp add: elements_2d [OF shp])
  also have "\<dots> = map Some (map (\<lambda>k. (s ! buf a) ! (p + k)) [0..<R * C])"
    by (simp add: o_def)
  also have "\<dots> = map Some (take (R * C) (drop p (s ! buf a)))"
    using room by (simp only: take_drop_nth_map)
  finally show ?thesis by (simp only: tolist_Inr p_def)
qed

lemma setitem_frame:
  "setitem s w idx val = Inr s'' \<Longrightarrow>
   length s'' = length s \<and> (\<forall>b. b \<noteq> buf w \<longrightarrow> s'' ! b = s ! b)"
  by (auto simp add: setitem_def store_at_def split: if_splits)

lemma tolist_same_buffer:
  "buf x < length s \<Longrightarrow> buf x < length s'' \<Longrightarrow> s'' ! buf x = s ! buf x \<Longrightarrow>
   tolist s'' x = tolist s x"
proof -
  assume a: "buf x < length s" "buf x < length s''" "s'' ! buf x = s ! buf x"
  have "load s'' (buf x) c = load s (buf x) c" for c
    unfolding load_def by (simp only: a simp_thms)
  then show ?thesis by (simp add: tolist_def elements_def)
qed

subsection \<open>\<^verbatim>\<open>copy\<close> of a view with an overlap factor other than 2\<close>

text \<open>
  Claim C4 asks \<^verbatim>\<open>copy(x, L)\<close> to return the content of \<open>x\<close> for every overlap factor.
  A framed signal of three frames of length 2, lapped with \<open>L = 3\<close>, is one row of six
  elements. \<^verbatim>\<open>copy\<close> of it with \<open>L = 3\<close> unlaps with the factor 2 all the same, which
  reads two rows of three elements, and the result repeats the third element and loses
  the sixth.
\<close>

theorem copy_three_frame_overlap:
  "lap [[10, 11, 12, 13, 14, 15::int]] \<lparr>buf = 0, offset = 0, shape = [3, 2], strides = [2, 1]\<rparr>
       3 False
     = Inr ([[10, 11, 12, 13, 14, 15]],
            \<lparr>buf = 0, offset = 0, shape = [1, 6], strides = [2, 1]\<rparr>) \<and>
   tolist [[10, 11, 12, 13, 14, 15::int]] \<lparr>buf = 0, offset = 0, shape = [1, 6], strides = [2, 1]\<rparr>
     = Inr [10, 11, 12, 13, 14, 15] \<and>
   copy [[10, 11, 12, 13, 14, 15::int]] \<lparr>buf = 0, offset = 0, shape = [1, 6], strides = [2, 1]\<rparr> 3
     = Inr ([[10, 11, 12, 13, 14, 15], [10, 11, 12, 12, 13, 14]],
            \<lparr>buf = 1, offset = 0, shape = [1, 6], strides = [2, 1]\<rparr>) \<and>
   tolist [[10, 11, 12, 13, 14, 15], [10, 11, 12, 12, 13, 14::int]]
          \<lparr>buf = 1, offset = 0, shape = [1, 6], strides = [2, 1]\<rparr>
     = Inr [10, 11, 12, 12, 13, 14]"
  by code_simp

text \<open>
  For a view lapped with the factor 2, the only factor the body of \<^verbatim>\<open>copy\<close> unlaps with,
  the copy is right whatever \<open>L\<close> is passed: the result has the shape and the content of
  the view, it lives in a buffer of its own, and a write through it changes neither the
  view nor the framed signal under it.
\<close>

lemma copy_two_frame_view:
  assumes fr: "framed s a R C" and R2: "2 \<le> R" and C1: "1 \<le> C"
    and lp: "lap s a 2 False = Inr (s0, v)"
  shows "\<exists>s' w vs. copy s v L = Inr (s', w) \<and> shape w = shape v \<and>
           tolist s v = Inr vs \<and> tolist s' w = Inr vs \<and>
           buf w = length s \<and> s' = s @ [take (R * C) (drop (nat (offset a)) (s ! buf a))] \<and>
           (\<forall>idx val s''. setitem s' w idx val = Inr s'' \<longrightarrow>
              tolist s'' v = tolist s v \<and> tolist s'' a = tolist s a)"
proof -
  define p where "p = nat (offset a)"
  define b where "b = buf a"
  define sig where "sig = take (R * C) (drop p (s ! b))"
  define s' where "s' = s @ [sig]"
  define w where "w = \<lparr>buf = length s, offset = 0, shape = [R - 1, 2 * C], strides = [int C, 1]\<rparr>"
  from fr have o0: "0 \<le> offset a"
    and o1: "offset a + int (R * C) \<le> int (length (s ! buf a))"
    unfolding framed_def by blast+
  then have room: "p + R * C \<le> length (s ! b)" unfolding p_def b_def by linarith
  from fr o0 C1 have a: "a = \<lparr>buf = b, offset = int p, shape = [R, C], strides = [int C, 1]\<rparr>"
    and bs: "b < length s"
    by (simp_all add: framed_def p_def b_def)
  from lp lap_two_view [OF fr R2 C1]
  have v: "v = \<lparr>buf = b, offset = int p, shape = [R - 1, 2 * C], strides = [int C, 1]\<rparr>"
    using o0 by (simp add: b_def p_def)
  have lsig: "length sig = R * C" using room by (simp add: sig_def)
  have sh0: "shape_at v 0 = Inr (R - 1)" and sh1: "shape_at v 1 = Inr (2 * C)"
    by (simp_all add: shape_at_def v)
  have fd: "py_floordiv (int (2 * C)) 2 = Inr (int C)"
    by (simp add: py_floordiv_def)
  have rows: "int (R - 1) + 2 - 1 = int R" using R2 by simp
  have "as_strided v [int R, int C] (strides v) = Inr a"
    by (simp add: as_strided_def v a)
  then have unl: "as_strided v [int (R - 1) + 2 - 1, int C] (strides v) = Inr a"
    by (simp only: rows)
  have "tolist s a = Inr sig"
    using tolist_framed [OF fr] by (simp only: sig_def p_def b_def)
  from ndarray_copy_Inr [OF this]
  have cp: "ndarray_copy s a
     = Inr (s', \<lparr>buf = length s, offset = 0, shape = [R, C], strides = c_strides [R, C]\<rparr>)"
    by (simp add: s'_def a)
  have "unlap s v 2 True
     = Inr (s', \<lparr>buf = length s, offset = 0, shape = [R, C], strides = c_strides [R, C]\<rparr>)"
    by (simp only: unlap_def sh0 sh1 fd ebind_Inr unl if_True cp)
  moreover have "ravel s' \<lparr>buf = length s, offset = 0, shape = [R, C], strides = c_strides [R, C]\<rparr>
     = Inr (s', \<lparr>buf = length s, offset = 0, shape = [R * C], strides = [1]\<rparr>)"
    using c_contiguous_fresh_2d [of "length s" 0 R C] by (simp add: ravel_def)
  ultimately have fl: "flatten s v 2 True
     = Inr (s', \<lparr>buf = length s, offset = 0, shape = [R * C], strides = [1]\<rparr>)"
    by (simp add: flatten_def)
  have ll: "lap_like \<lparr>buf = length s, offset = 0, shape = [R * C], strides = [1]\<rparr> v = Inr w"
    by (simp add: lap_like_def as_strided_def v w_def)
  have run: "copy s v L = Inr (s', w)"
    by (simp add: copy_def fl ll)
  have old: "tolist s v
     = Inr (map (\<lambda>k. (s ! b) ! (p + (k div (2 * C) * C + k mod (2 * C)))) [0..<(R - 1) * (2 * C)])"
    unfolding v by (rule tolist_lapped_two [OF bs room R2])
  have "tolist s' \<lparr>buf = length s, offset = int 0, shape = [R - 1, 2 * C], strides = [int C, 1]\<rparr>
     = Inr (map (\<lambda>k. (s' ! length s) ! (0 + (k div (2 * C) * C + k mod (2 * C))))
              [0..<(R - 1) * (2 * C)])"
    by (rule tolist_lapped_two) (simp_all add: s'_def lsig R2)
  also have "map (\<lambda>k. (s' ! length s) ! (0 + (k div (2 * C) * C + k mod (2 * C))))
              [0..<(R - 1) * (2 * C)]
     = map (\<lambda>k. (s ! b) ! (p + (k div (2 * C) * C + k mod (2 * C)))) [0..<(R - 1) * (2 * C)]"
  proof (rule map_cong [OF refl])
    fix k assume "k \<in> set [0..<(R - 1) * (2 * C)]"
    then have "k div (2 * C) * C + k mod (2 * C) < R * C"
      using lapped_cell_in_signal [OF _ R2] by simp
    then show "(s' ! length s) ! (0 + (k div (2 * C) * C + k mod (2 * C)))
        = (s ! b) ! (p + (k div (2 * C) * C + k mod (2 * C)))"
      using room by (simp add: s'_def sig_def)
  qed
  finally have new: "tolist s' w
     = Inr (map (\<lambda>k. (s ! b) ! (p + (k div (2 * C) * C + k mod (2 * C)))) [0..<(R - 1) * (2 * C)])"
    by (simp add: w_def)
  have indep: "tolist s'' v = tolist s v \<and> tolist s'' a = tolist s a"
    if "setitem s' w idx val = Inr s''" for idx val s''
  proof -
    from setitem_frame [OF that]
    have l: "length s'' = Suc (length s)" and same: "s'' ! b = s' ! b"
      using bs by (simp_all add: s'_def w_def)
    from bs have "s' ! b = s ! b" by (simp add: s'_def nth_append)
    with same have "s'' ! b = s ! b" by simp
    moreover have "buf v = b" "buf a = b" by (simp_all add: v b_def)
    ultimately have "buf v < length s" "buf v < length s''" "s'' ! buf v = s ! buf v"
      "buf a < length s" "buf a < length s''" "s'' ! buf a = s ! buf a"
      using bs l by simp_all
    then show ?thesis by (intro conjI tolist_same_buffer)
  qed
  have "shape w = shape v" "buf w = length s" by (simp_all add: w_def v)
  with run old new indep show ?thesis
    unfolding s'_def sig_def p_def b_def by blast
qed

section \<open>Properties of the in-place transform\<close>

subsection \<open>Writing a row\<close>





subsection \<open>The loop over the rows of an array with contiguous rows\<close>

lemma length_apply_matrix: "wf_matrix T \<Longrightarrow> length (apply_matrix T v) = nrows T"
  by (simp add: apply_matrix_def wf_matrix_def)

lemma transform_rows_append:
  "transform_rows s x T (xs @ ys)
     = ebind (transform_rows s x T xs) (\<lambda>s'. transform_rows s' x T ys)"
proof (induction xs arbitrary: s)
  case Nil
  then show ?case by simp
next
  case (Cons i xs)
  then show ?case by (cases "transform_row s x T i") simp_all
qed





subsection \<open>What a row leaves for the rows after it\<close>

lemma drop_overwrite_inside:
  assumes "k \<le> length ys" and "p \<le> length cells"
  shows "drop (p + k) (overwrite cells p ys) = drop k ys @ drop (p + length ys) cells"
  using assms by (simp add: overwrite_def min_absorb2)


lemma take_drop_overwrite_before:
  assumes "q + k \<le> p" and "p \<le> length cells"
  shows "take k (drop q (overwrite cells p ys)) = take k (drop q cells)"
proof -
  have "take k (drop q (overwrite cells p ys)) = drop q (take (q + k) (overwrite cells p ys))"
    by (simp add: drop_take add.commute)
  also have "take (q + k) (overwrite cells p ys) = take (q + k) cells"
    using assms by (simp add: overwrite_def min_absorb2 take_take min_absorb1)
  also have "drop q (take (q + k) cells) = take k (drop q cells)"
    by (simp add: drop_take add.commute)
  finally show ?thesis .
qed

lemma take_drop_overwrite_same:
  assumes "p \<le> length cells"
  shows "take (length ys) (drop p (overwrite cells p ys)) = ys"
  using drop_overwrite_inside [OF _ assms, of 0 ys] by simp


subsection \<open>Transforming a lapped view\<close>



subsection \<open>Writing a row of any layout\<close>

lemma store_all_Nil [simp]: "store_all [] cells = cells"
  by (simp add: store_all_def)

lemma store_all_Cons [simp]:
  "store_all ((a, v) # avs) cells = store_all avs (cells[nat a := v])"
  by (simp add: store_all_def)

lemma length_store_all [simp]: "length (store_all avs cells) = length cells"
  by (induction avs arbitrary: cells) auto

lemma store_all_other:
  "k \<notin> (\<lambda>(a, v). nat a) ` set avs \<Longrightarrow> store_all avs cells ! k = cells ! k"
  by (induction avs arbitrary: cells) auto

lemma store_all_hit:
  assumes "distinct (map (\<lambda>(a, v). nat a) avs)" and "(a, v) \<in> set avs"
    and "nat a < length cells"
  shows "store_all avs cells ! nat a = v"
  using assms
proof (induction avs arbitrary: cells)
  case Nil
  then show ?case by simp
next
  case (Cons p avs)
  obtain a0 v0 where p: "p = (a0, v0)" by (cases p)
  show ?case
  proof (cases "(a, v) = (a0, v0)")
    case True
    from Cons.prems(1) have "nat a0 \<notin> (\<lambda>(a, v). nat a) ` set avs" by (simp add: p)
    then have "store_all avs (cells[nat a0 := v0]) ! nat a0 = cells[nat a0 := v0] ! nat a0"
      by (rule store_all_other)
    with True Cons.prems(3) show ?thesis by (simp add: p)
  next
    case False
    with Cons.prems(2) have m: "(a, v) \<in> set avs" by (auto simp add: p)
    from Cons.prems(1) have d: "distinct (map (\<lambda>(a, v). nat a) avs)" by simp
    from Cons.prems(3) have l: "nat a < length (cells[nat a0 := v0])" by simp
    from Cons.IH [OF d m l] have "store_all avs (cells[nat a0 := v0]) ! nat a = v" .
    then show ?thesis by (simp add: p)
  qed
qed

lemma write_elems_store_all:
  assumes "\<forall>(a, v)\<in>set avs. b < length s \<and> 0 \<le> a \<and> a < int (length (s ! b))"
  shows "write_elems s b avs = Inr (s[b := store_all avs (s ! b)])"
  using assms
proof (induction avs arbitrary: s)
  case Nil
  then show ?case by simp
next
  case (Cons p avs)
  obtain a v where p: "p = (a, v)" by (cases p)
  let ?s1 = "s[b := (s ! b)[nat a := v]]"
  from Cons.prems have ok: "b < length s" "0 \<le> a" "a < int (length (s ! b))"
    by (simp_all add: p)
  then have st: "store_at s b a v = Inr ?s1" by (simp add: store_at_def)
  have "\<forall>(a, v)\<in>set avs. b < length ?s1 \<and> 0 \<le> a \<and> a < int (length (?s1 ! b))"
    using Cons.prems ok by (auto simp add: p)
  then have "write_elems ?s1 b avs = Inr (?s1[b := store_all avs (?s1 ! b)])"
    by (rule Cons.IH)
  also have "?s1[b := store_all avs (?s1 ! b)] = s[b := store_all ((a, v) # avs) (s ! b)]"
    using ok by simp
  finally show ?case by (simp add: p st)
qed

lemma mem_indices_2d: "[i, j] \<in> set (indices [R, C]) \<longleftrightarrow> i < R \<and> j < C"
  by (auto simp add: image_iff)

lemma row_general:
  assumes x: "shape x = [R, C]" "strides x = [s0, s1]" and i: "i < R"
    and inb: "\<forall>j<C. buf x < length t \<and> 0 \<le> address x [i, j] \<and>
                     address x [i, j] < int (length (t ! buf x))"
  shows "row_view x i
           = Inr \<lparr>buf = buf x, offset = offset x + int i * s0, shape = [C], strides = [s1]\<rparr>"
    and "tolist t \<lparr>buf = buf x, offset = offset x + int i * s0, shape = [C], strides = [s1]\<rparr>
           = Inr (map (\<lambda>j. (t ! buf x) ! nat (address x [i, j])) [0..<C])"
    and "read_row t x i = Inr (map (\<lambda>j. (t ! buf x) ! nat (address x [i, j])) [0..<C])"
proof -
  let ?rv = "\<lparr>buf = buf x, offset = offset x + int i * s0, shape = [C], strides = [s1]\<rparr>"
  show rv: "row_view x i = Inr ?rv"
    using x i by (simp add: row_view_def)
  have adr: "address ?rv [j] = address x [i, j]" for j
    by (simp add: address_def x)
  have "map (\<lambda>k. load t (buf x) (address ?rv [k])) [0..<C]
          = map (\<lambda>k. Some ((t ! buf x) ! nat (address x [i, k]))) [0..<C]"
    by (rule map_cong [OF refl]) (use inb in \<open>simp add: adr load_def\<close>)
  then have "elements t ?rv = map Some (map (\<lambda>j. (t ! buf x) ! nat (address x [i, j])) [0..<C])"
    by (simp add: elements_1d o_def)
  then show tl: "tolist t ?rv = Inr (map (\<lambda>j. (t ! buf x) ! nat (address x [i, j])) [0..<C])"
    by (simp only: tolist_Inr)
  then show "read_row t x i = Inr (map (\<lambda>j. (t ! buf x) ! nat (address x [i, j])) [0..<C])"
    by (simp add: read_row_def rv)
qed

lemma transform_row_general:
  assumes x: "shape x = [R, C]" "strides x = [s0, s1]" and i: "i < R"
    and inb: "\<forall>j<C. buf x < length t \<and> 0 \<le> address x [i, j] \<and>
                     address x [i, j] < int (length (t ! buf x))"
    and T: "wf_matrix T" "nrows T = C" "ncols T = C"
    and y: "y = apply_matrix T (map (\<lambda>j. (t ! buf x) ! nat (address x [i, j])) [0..<C])"
  shows "transform_row t x T i
     = Inr (t[buf x := store_all (map (\<lambda>j. (address x [i, j], y ! j)) [0..<C]) (t ! buf x)])"
proof -
  let ?rv = "\<lparr>buf = buf x, offset = offset x + int i * s0, shape = [C], strides = [s1]\<rparr>"
  let ?row = "map (\<lambda>j. (t ! buf x) ! nat (address x [i, j])) [0..<C]"
  note rv = row_general(1) [OF x i inb]
  note rd = row_general(2) [OF x i inb]
  have mv: "matvec T ?row = Inr y" using T by (simp add: matvec_def y)
  have ly: "length y = C" using T by (simp add: length_apply_matrix y)
  have adr: "address ?rv [j] = address x [i, j]" for j
    by (simp add: address_def x)
  have meq: "map (\<lambda>j. (address ?rv [j], y ! (if length y = 1 then 0 else j))) [0..<C]
          = map (\<lambda>j. (address x [i, j], y ! j)) [0..<C]"
    by (rule map_cong [OF refl]) (auto simp add: adr ly)
  have "assign_row t ?rv C y
          = write_elems t (buf ?rv)
              (map (\<lambda>j. (address ?rv [j], y ! (if length y = 1 then 0 else j))) [0..<C])"
    using ly by (simp only: assign_row_def simp_thms if_True)
  also have "\<dots> = write_elems t (buf x) (map (\<lambda>j. (address x [i, j], y ! j)) [0..<C])"
    by (simp only: meq ndarray.simps)
  also have "\<dots> = Inr (t[buf x := store_all (map (\<lambda>j. (address x [i, j], y ! j)) [0..<C])
                                      (t ! buf x)])"
    by (rule write_elems_store_all) (use inb in auto)
  finally have asg: "assign_row t ?rv C y
     = Inr (t[buf x := store_all (map (\<lambda>j. (address x [i, j], y ! j)) [0..<C]) (t ! buf x)])" .
  show ?thesis
    by (simp only: transform_row_def rv ebind_Inr ndarray.simps list.case rd mv asg)
qed

subsection \<open>Transforming a plain framed signal\<close>

lemma transform_rows_empty_rows:
  assumes x: "shape x = [R, 0]" "strides x = [st0, st1]"
    and T: "wf_matrix T" "nrows T = 0" "ncols T = 0"
    and xs: "\<forall>i\<in>set xs. i < R"
  shows "transform_rows s x T xs = Inr s"
  using xs
proof (induction xs)
  case Nil
  then show ?case by simp
next
  case (Cons i xs)
  then have i: "i < R" by simp
  from T have "rows T = []" by (simp add: wf_matrix_def)
  then have "transform_row s x T i = Inr s"
    using x i T
    by (simp add: transform_row_def row_view_def tolist_def elements_1d matvec_def
        apply_matrix_def assign_row_def)
  with Cons show ?case by simp
qed

lemma read_row_empty:
  assumes x: "shape x = [R, 0]" "strides x = [st0, st1]" and i: "i < R"
  shows "read_row s x i = Inr []"
  using assms by (simp add: read_row_def row_view_def tolist_def elements_1d)

lemma plain_cells:
  assumes "plain s x R C" and "i < R" and "j < C"
  shows "buf x < length s \<and> 0 \<le> address x [i, j] \<and>
         address x [i, j] < int (length (s ! buf x))"
proof -
  from assms have "load s (buf x) (address x [i, j]) \<noteq> None"
    unfolding plain_def list_all_iff using mem_indices_2d [of i j R C] by blast
  then show ?thesis by (simp add: load_def split: if_splits)
qed

lemma plain_no_alias:
  assumes "plain s x R C" and "i < R" "j < C" and "i' < R" "j' < C"
    and "nat (address x [i, j]) = nat (address x [i', j'])"
  shows "i = i' \<and> j = j'"
proof -
  from plain_cells [OF assms(1,2,3)] plain_cells [OF assms(1,4,5)] assms(6)
  have eq: "address x [i, j] = address x [i', j']" by (auto simp add: nat_eq_iff)
  from assms(1) have inj: "inj_on (address x) (set (indices [R, C]))"
    by (simp add: plain_def distinct_map)
  have m1: "[i, j] \<in> set (indices [R, C])" and m2: "[i', j'] \<in> set (indices [R, C])"
    using assms(2-5) by (simp_all only: mem_indices_2d)
  from inj_onD [OF inj eq m1 m2] have "[i, j] = [i', j']" .
  then show ?thesis by simp
qed

text \<open>
  Claim C6, as amended. For every square matrix \<open>T\<close> of shape \<open>(C, C)\<close> and every plain
  framed signal \<open>x\<close> of shape \<open>(R, C)\<close> (its elements lie inside its buffer and no two of
  them share a cell; the strides are free, so a slice and a transposed array are
  covered), \<^verbatim>\<open>transform(x, T)\<close> completes and returns \<open>x\<close> itself, the same view on the same
  buffer; the shape of \<open>x\<close> is \<open>(R, C)\<close> as before; row \<open>i\<close> of \<open>x\<close> now holds the
  matrix-vector product of \<open>T\<close> with the original row \<open>i\<close>; and no other buffer of the store
  has changed.
\<close>

theorem transform_plain_rows:
  assumes pl: "plain s x R C" and T: "wf_matrix T" "nrows T = C" "ncols T = C"
  shows "\<exists>s'. transform s x T = Inr (s', x) \<and> shape x = [R, C] \<and>
     length s' = length s \<and> (\<forall>b. b \<noteq> buf x \<longrightarrow> s' ! b = s ! b) \<and>
     (\<forall>i<R. \<exists>r. read_row s x i = Inr r \<and> matvec T r = Inr (apply_matrix T r) \<and>
                  read_row s' x i = Inr (apply_matrix T r))"
proof -
  from pl have shp: "shape x = [R, C]" and "length (strides x) = 2"
    by (simp_all add: plain_def)
  then obtain s0 s1 where str: "strides x = [s0, s1]"
    by (cases "strides x"; cases "tl (strides x)") auto
  show ?thesis
  proof (cases "C = 0")
    case True
    from shp True have x: "shape x = [R, 0]" by simp
    from T True have T0: "wf_matrix T" "nrows T = 0" "ncols T = 0" by simp_all
    then have empty: "apply_matrix T [] = []"
      by (simp add: apply_matrix_def wf_matrix_def)
    have "transform_rows s x T [0..<R] = Inr s"
      by (rule transform_rows_empty_rows [OF x str T0]) simp
    then have "transform s x T = Inr (s, x)"
      by (simp add: transform_def len_def x)
    moreover have "read_row s x i = Inr [] \<and> matvec T [] = Inr (apply_matrix T []) \<and>
        read_row s x i = Inr (apply_matrix T [])" if "i < R" for i
      using read_row_empty [OF x str that, of s] T0 empty by (simp add: matvec_def)
    ultimately show ?thesis using x True by blast
  next
    case False
    define b where "b = buf x"
    define key where "key i j = nat (address x [i, j])" for i j
    define orig where "orig i = map (\<lambda>j. (s ! b) ! key i j) [0..<C]" for i
    define goal where "goal i = apply_matrix T (orig i)" for i
    have lg: "length (goal i) = C" for i
      using T by (simp add: goal_def length_apply_matrix)
    have cells: "b < length s \<and> 0 \<le> address x [i, j] \<and> address x [i, j] < int (length (s ! b))"
      if "i < R" "j < C" for i j
      using plain_cells [OF pl that] by (simp add: b_def)
    have key_less: "key i j < length (s ! b)" if "i < R" "j < C" for i j
      using cells [OF that] by (auto simp add: key_def nat_less_iff)
    have key_inj: "i = i' \<and> j = j'"
      if "i < R" "j < C" "i' < R" "j' < C" "key i j = key i' j'" for i j i' j'
      using plain_no_alias [OF pl that(1-4)] that(5) by (simp add: key_def)
    have steps: "\<exists>c. transform_rows s x T [0..<m] = Inr (s[b := c]) \<and>
        length c = length (s ! b) \<and>
        (\<forall>i<m. \<forall>j<C. c ! key i j = goal i ! j) \<and>
        (\<forall>i. m \<le> i \<and> i < R \<longrightarrow> (\<forall>j<C. c ! key i j = (s ! b) ! key i j))"
      if "m \<le> R" for m
      using that
    proof (induction m)
      case 0
      have "transform_rows s x T [0..<0] = Inr (s[b := s ! b])" by simp
      then show ?case by blast
    next
      case (Suc m)
      then obtain c where before: "transform_rows s x T [0..<m] = Inr (s[b := c])"
        and lc: "length c = length (s ! b)"
        and finished: "\<And>i j. i < m \<Longrightarrow> j < C \<Longrightarrow> c ! key i j = goal i ! j"
        and todo: "\<And>i j. m \<le> i \<Longrightarrow> i < R \<Longrightarrow> j < C \<Longrightarrow> c ! key i j = (s ! b) ! key i j"
        by auto
      from Suc.prems have m: "m < R" by simp
      from False m have bs: "b < length s" using cells [of m 0] by simp
      let ?t = "s[b := c]"
      have tb: "?t ! b = c" using bs by simp
      have inb: "\<forall>j<C. buf x < length ?t \<and> 0 \<le> address x [m, j] \<and>
                     address x [m, j] < int (length (?t ! buf x))"
        using cells [OF m] lc bs by (simp add: b_def)
      have row: "map (\<lambda>j. (?t ! buf x) ! nat (address x [m, j])) [0..<C] = orig m"
        unfolding orig_def
        by (rule map_cong [OF refl]) (use todo [of m] m bs in \<open>simp add: b_def key_def\<close>)
      have y: "goal m = apply_matrix T (map (\<lambda>j. (?t ! buf x) ! nat (address x [m, j])) [0..<C])"
        by (simp only: row goal_def)
      let ?avs = "map (\<lambda>j. (address x [m, j], goal m ! j)) [0..<C]"
      define c' where "c' = store_all ?avs c"
      from transform_row_general [OF shp str m inb T y]
      have step: "transform_row ?t x T m = Inr (s[b := c'])"
        using bs by (simp add: c'_def b_def)
      have keys: "(\<lambda>(a, v). nat a) ` set ?avs = key m ` {0..<C}"
        by (auto simp add: key_def image_iff)
      have dist: "distinct (map (\<lambda>(a, v). nat a) ?avs)"
      proof -
        have eq: "map (\<lambda>(a, v). nat a) ?avs = map (key m) [0..<C]"
          unfolding map_map by (rule map_cong [OF refl]) (simp add: key_def)
        have inj: "inj_on (key m) (set [0..<C])"
          by (rule inj_onI) (use key_inj [OF m _ m] in auto)
        have "distinct (map (key m) [0..<C])"
          unfolding distinct_map using inj by simp
        then show ?thesis by (simp only: eq)
      qed
      have hit: "c' ! key m j = goal m ! j" if j: "j < C" for j
      proof -
        have "(address x [m, j], goal m ! j) \<in> set ?avs" using j by (auto simp add: image_iff)
        moreover have "nat (address x [m, j]) < length c"
          using key_less [OF m j] lc by (simp add: key_def)
        ultimately have "store_all ?avs c ! nat (address x [m, j]) = goal m ! j"
          using dist by (intro store_all_hit)
        then show ?thesis by (simp add: c'_def key_def)
      qed
      have miss: "c' ! key i j = c ! key i j" if i: "i < R" "i \<noteq> m" and j: "j < C" for i j
      proof -
        have "key i j \<notin> key m ` {0..<C}"
        proof
          assume "key i j \<in> key m ` {0..<C}"
          then obtain j' where "j' < C" "key i j = key m j'" by auto
          from key_inj [OF i(1) j m this] i(2) show False by simp
        qed
        then have "key i j \<notin> (\<lambda>(a, v). nat a) ` set ?avs" by (simp only: keys not_False_eq_True)
        then show ?thesis
          unfolding c'_def by (rule store_all_other)
      qed
      have "transform_rows s x T [0..<Suc m] = Inr (s[b := c'])"
        by (simp add: transform_rows_append before step)
      moreover have "length c' = length (s ! b)" by (simp add: c'_def lc)
      moreover have "c' ! key i j = goal i ! j" if "i < Suc m" "j < C" for i j
      proof (cases "i = m")
        case True
        with hit [OF that(2)] show ?thesis by simp
      next
        case False
        with that m have "i < R" "i < m" by simp_all
        with miss [OF _ False that(2)] finished [OF _ that(2)] show ?thesis by simp
      qed
      moreover have "c' ! key i j = (s ! b) ! key i j" if "Suc m \<le> i" "i < R" "j < C" for i j
        using miss [OF that(2) _ that(3)] todo [OF _ that(2,3)] that(1) by simp
      ultimately show ?case by blast
    qed
    from steps [of R] obtain c where run: "transform_rows s x T [0..<R] = Inr (s[b := c])"
      and lc: "length c = length (s ! b)"
      and finished: "\<And>i j. i < R \<Longrightarrow> j < C \<Longrightarrow> c ! key i j = goal i ! j"
      by auto
    let ?s' = "s[b := c]"
    have whole: "transform s x T = Inr (?s', x)"
      using run by (simp add: transform_def len_def shp)
    have rows: "read_row s x i = Inr (orig i) \<and> matvec T (orig i) = Inr (apply_matrix T (orig i)) \<and>
        read_row ?s' x i = Inr (apply_matrix T (orig i))"
      if i: "i < R" for i
    proof -
      from False i have bs: "b < length s" using cells [of i 0] by simp
      have "\<forall>j<C. buf x < length s \<and> 0 \<le> address x [i, j] \<and>
                     address x [i, j] < int (length (s ! buf x))"
        using cells [OF i] by (simp add: b_def)
      from row_general(3) [OF shp str i this]
      have r0: "read_row s x i = Inr (orig i)"
        by (simp add: orig_def key_def b_def)
      have "length (orig i) = C" by (simp add: orig_def)
      then have mv: "matvec T (orig i) = Inr (apply_matrix T (orig i))"
        using T by (simp add: matvec_def)
      have "\<forall>j<C. buf x < length ?s' \<and> 0 \<le> address x [i, j] \<and>
                     address x [i, j] < int (length (?s' ! buf x))"
        using cells [OF i] lc bs by (simp add: b_def)
      from row_general(3) [OF shp str i this]
      have "read_row ?s' x i = Inr (map (\<lambda>j. c ! key i j) [0..<C])"
        using bs by (simp add: key_def b_def)
      also have "map (\<lambda>j. c ! key i j) [0..<C] = map (\<lambda>j. goal i ! j) [0..<length (goal i)]"
        unfolding lg by (rule map_cong [OF refl]) (use finished [OF i] in simp)
      also have "\<dots> = goal i" by (rule map_nth)
      finally show ?thesis using r0 mv by (simp add: goal_def)
    qed
    have "length ?s' = length s" "\<forall>b'. b' \<noteq> buf x \<longrightarrow> ?s' ! b' = s ! b'"
      by (simp_all add: b_def)
    with whole shp rows show ?thesis by blast
  qed
qed

theorem transform_plain_rows_witness:
  "plain [[0, 1, 2, 0, 3, 4, 0, 5, 6::real]]
         \<lparr>buf = 0, offset = 1, shape = [3, 2], strides = [3, 1]\<rparr> 3 2 \<and>
   transform [[0, 1, 2, 0, 3, 4, 0, 5, 6]] \<lparr>buf = 0, offset = 1, shape = [3, 2], strides = [3, 1]\<rparr>
       \<lparr>nrows = 2, ncols = 2, rows = [[0, 1], [1, 1]]\<rparr>
     = Inr ([[0, 2, 3, 0, 4, 7, 0, 6, 11]],
            \<lparr>buf = 0, offset = 1, shape = [3, 2], strides = [3, 1]\<rparr>) \<and>
   read_row [[0, 1, 2, 0, 3, 4, 0, 5, 6::real]]
       \<lparr>buf = 0, offset = 1, shape = [3, 2], strides = [3, 1]\<rparr> 2 = Inr [5, 6] \<and>
   read_row [[0, 2, 3, 0, 4, 7, 0, 6, 11::real]]
       \<lparr>buf = 0, offset = 1, shape = [3, 2], strides = [3, 1]\<rparr> 2
     = Inr (apply_matrix \<lparr>nrows = 2, ncols = 2, rows = [[0, 1], [1, 1]]\<rparr> [5, 6])"
proof -
  let ?s = "[[0, 1, 2, 0, 3, 4, 0, 5, 6::real]]"
  let ?x = "\<lparr>buf = 0, offset = 1, shape = [3, 2], strides = [3, 1]\<rparr>"
  let ?T = "\<lparr>nrows = 2, ncols = 2, rows = [[0, 1], [1, 1]]\<rparr>"
  have pl: "plain ?s ?x 3 2" by code_simp
  have T: "wf_matrix ?T" "nrows ?T = 2" "ncols ?T = 2" by (simp_all add: wf_matrix_def)
  have run: "transform ?s ?x ?T = Inr ([[0, 2, 3, 0, 4, 7, 0, 6, 11]], ?x)" by code_simp
  have rd: "read_row ?s ?x 2 = Inr [5, 6]" by code_simp
  from transform_plain_rows [OF pl T] run
  have "\<forall>i<3. \<exists>r. read_row ?s ?x i = Inr r \<and> matvec ?T r = Inr (apply_matrix ?T r) \<and>
                  read_row [[0, 2, 3, 0, 4, 7, 0, 6, 11]] ?x i = Inr (apply_matrix ?T r)"
    by auto
  from this [rule_format, of 2] rd
  have "read_row [[0, 2, 3, 0, 4, 7, 0, 6, 11]] ?x 2 = Inr (apply_matrix ?T [5, 6])" by auto
  with pl run rd show ?thesis by simp
qed

text \<open>
  The claim as first stated takes any \<open>T\<close> of shape \<open>(K, C)\<close> and promises the shape
  \<open>(R, K)\<close>. The rows are assigned in place, so the row length cannot change: with
  \<open>K = 3\<close> and \<open>C = 2\<close> the product of the first row has three entries, and assigning it
  to a row of two raises.
\<close>

theorem transform_row_count_counterexample:
  "framed [[1, 2, 3, 4, 5, 6::real]] \<lparr>buf = 0, offset = 0, shape = [3, 2], strides = [2, 1]\<rparr> 3 2 \<and>
   plain [[1, 2, 3, 4, 5, 6::real]] \<lparr>buf = 0, offset = 0, shape = [3, 2], strides = [2, 1]\<rparr> 3 2 \<and>
   wf_matrix \<lparr>nrows = 3, ncols = 2, rows = [[1, 1], [1, 1], [1, 1]]\<rparr> \<and>
   transform [[1, 2, 3, 4, 5, 6]] \<lparr>buf = 0, offset = 0, shape = [3, 2], strides = [2, 1]\<rparr>
       \<lparr>nrows = 3, ncols = 2, rows = [[1, 1], [1, 1], [1, 1]]\<rparr> = Inl ValueError"
  by code_simp

section \<open>Properties of the kernels\<close>

subsection \<open>The grids and the matrices built on them\<close>

lemma arange_length [simp]: "length (arange M) = nat M"
  by (simp add: arange_def)

lemma arange_nth [simp]: "i < nat M \<Longrightarrow> arange M ! i = real i"
  by (simp add: arange_def)

lemma arange_nonpos [simp]: "M \<le> 0 \<Longrightarrow> arange M = []"
  by (simp add: arange_def)

lemma zip_meshgrid:
  "zip_matrix f (fst (meshgrid xs ys)) (snd (meshgrid xs ys))
     = \<lparr>nrows = length ys, ncols = length xs, rows = map (\<lambda>y. map (\<lambda>x. f x y) xs) ys\<rparr>"
proof -
  have row: "map2 f xs (map (\<lambda>x. y) xs) = map (\<lambda>x. f x y) xs" for y
    by (induction xs) simp_all
  have "map2 (\<lambda>ra rb. map2 f ra rb) (map (\<lambda>y. xs) ys) (map (\<lambda>y. map (\<lambda>x. y) xs) ys)
          = map (\<lambda>y. map (\<lambda>x. f x y) xs) ys"
    by (induction ys) (simp_all add: row)
  then show ?thesis
    by (simp add: zip_matrix_def meshgrid_def)
qed

lemma mdct_nonzero:
  "N \<noteq> 0 \<Longrightarrow>
   mdct N = Inr \<lparr>nrows = nat N, ncols = nat (N * 2),
       rows = map (\<lambda>k. map (\<lambda>n. cos (pi / real_of_int N * (n + real_of_int ((- N) div 2) + 1 / 2)
                                        * (k + 1 / 2)) / sqrt (real_of_int N / 2))
                          (arange (N * 2))) (arange N)\<rparr>"
  using zip_meshgrid [of _ "arange (N * 2)" "arange N"]
  by (simp add: mdct_def Let_def split_beta)

lemma dct4_nonzero:
  "N \<noteq> 0 \<Longrightarrow>
   dct4 N None = Inr \<lparr>nrows = nat N, ncols = nat N,
       rows = map (\<lambda>k. map (\<lambda>n. cos (pi / real_of_int N * (n + 1 / 2) * (k + 1 / 2))
                                   / sqrt (real_of_int N / 2))
                          (arange N)) (arange N)\<rparr>"
  using zip_meshgrid [of _ "arange N" "arange N"]
  by (simp add: dct4_def Let_def split_beta)

subsection \<open>Entries of the MDCT matrix\<close>

text \<open>
  Claim C5, as amended. For every positive \<open>N\<close>, \<^verbatim>\<open>mdct(N)\<close> returns a matrix of \<open>N\<close>
  rows and \<open>2N\<close> columns whose entry at row \<open>k\<close> and column \<open>n\<close> is
  \<open>cos ((pi / N) * (n + shift + 1/2) * (k + 1/2)) / sqrt (N / 2)\<close>, where the integer
  \<open>shift\<close> is \<^verbatim>\<open>(-N) // 2\<close>, the floor of \<open>- N / 2\<close>, which is \<open>- ((N + 1) div 2)\<close>:
  for an odd \<open>N\<close> it lies one half below \<open>- N / 2\<close>. The entries are real numbers here;
  the rounding of the floating-point evaluation is left out.
\<close>

theorem mdct_entries:
  assumes "0 < N"
  shows "\<exists>m. mdct N = Inr m \<and> nrows m = nat N \<and> ncols m = nat (2 * N) \<and> wf_matrix m \<and>
     (\<forall>k<nat N. \<forall>n<nat (2 * N).
        entry m k n = cos (pi / real_of_int N
                            * (real n + real_of_int ((- N) div 2) + 1 / 2) * (real k + 1 / 2))
                      / sqrt (real_of_int N / 2)) \<and>
     (- N) div 2 = - ((N + 1) div 2)"
proof -
  from assms have "N \<noteq> 0" by simp
  note m = mdct_nonzero [OF this]
  have "(- N) div 2 = - ((N + 1) div 2)" by presburger
  then show ?thesis
    by (simp add: m wf_matrix_def entry_def list_all_iff mult.commute)
qed

theorem mdct_entries_witness:
  "mdct 1 = Inr \<lparr>nrows = 1, ncols = 2, rows = [[1, 1]]\<rparr>"
proof -
  from mdct_entries [of 1] obtain m where m: "mdct 1 = Inr m" "nrows m = 1" "ncols m = 2"
    "wf_matrix m"
    and e: "\<forall>k<nat 1. \<forall>n<nat (2 * 1).
        entry m k n = cos (pi / real_of_int 1
                            * (real n + real_of_int ((- 1) div 2) + 1 / 2) * (real k + 1 / 2))
                      / sqrt (real_of_int 1 / 2)"
    by auto
  have s: "sqrt (1 / 2) = sqrt 2 / 2"
    by (simp add: real_sqrt_divide real_div_sqrt)
  have "entry m 0 0 = cos (- (pi / 4)) / sqrt (1 / 2)"
    using e by (simp add: field_simps)
  then have e0: "entry m 0 0 = 1" by (simp add: cos_45 s)
  have "entry m 0 1 = cos (pi / 4) / sqrt (1 / 2)"
    using e by (simp add: field_simps)
  then have e1: "entry m 0 1 = 1" by (simp add: cos_45 s)
  from m(2-4) obtain r where r: "rows m = [r]" "length r = 2"
    by (cases "rows m") (auto simp: wf_matrix_def)
  then obtain a b where "r = [a, b]"
    by (cases r; cases "tl r") auto
  with r e0 e1 have "rows m = [[1, 1]]" by (simp add: entry_def)
  with m show ?thesis by (cases m) simp
qed

text \<open>
  The claim as first stated takes \<open>- (N div 2)\<close> for the shift, which for an odd \<open>N\<close> lies
  one half above \<open>- N / 2\<close>. For \<open>N = 1\<close> the entry at row 0 and column 1 is 1, and the
  stated formula gives \<open>- 1\<close>.
\<close>

theorem mdct_shift_counterexample:
  "mdct 1 = Inr \<lparr>nrows = 1, ncols = 2, rows = [[1, 1]]\<rparr> \<and>
   entry \<lparr>nrows = 1, ncols = 2, rows = [[1, 1]]\<rparr> 0 1 = 1 \<and>
   cos (pi / real_of_int 1 * (real 1 + real_of_int (- (1 div 2)) + 1 / 2) * (real 0 + 1 / 2))
     / sqrt (real_of_int 1 / 2) = - 1"
proof -
  have s: "sqrt (1 / 2) = sqrt 2 / 2"
    by (simp add: real_sqrt_divide real_div_sqrt)
  have m: "mdct 1 = Inr \<lparr>nrows = 1, ncols = 2, rows = [[1, 1]]\<rparr>"
    by (simp add: mdct_nonzero arange_def cos_45 s upt_rec [of 0] numeral_2_eq_2)
  have "cos (3 * pi / 4) = cos (pi - pi / 4)" by simp
  also have "\<dots> = - cos (pi / 4)" by (rule cos_pi_minus)
  finally have c: "cos (3 * pi / 4) = - (sqrt 2 / 2)" by (simp add: cos_45)
  have "cos (pi / real_of_int 1 * (real 1 + real_of_int (- (1 div 2)) + 1 / 2) * (real 0 + 1 / 2))
          / sqrt (real_of_int 1 / 2) = cos (3 * pi / 4) / sqrt (1 / 2)"
    by (simp add: mult.commute)
  also have "\<dots> = - 1" unfolding c s by simp
  finally show ?thesis using m by (simp only: entry_def matrix.simps nth_Cons_0 nth_Cons_Suc One_nat_def simp_thms)
qed

subsection \<open>Sizes that are not positive\<close>

text \<open>
  Claim C9, as amended. For a positive \<open>N\<close>, \<^verbatim>\<open>mdct(N)\<close> and \<^verbatim>\<open>dct4(N)\<close> do not fail.
  For \<open>N = 0\<close> both fail, with the \<^verbatim>\<open>ZeroDivisionError\<close> of the division \<^verbatim>\<open>np.pi / N\<close>
  (no argument is checked beforehand). For a negative \<open>N\<close> neither fails: both return
  the empty matrix of shape \<open>(0, 0)\<close>.
\<close>

theorem kernel_failures:
  "(0 < N \<longrightarrow> (\<exists>m. mdct N = Inr m) \<and> (\<exists>m. dct4 N None = Inr m)) \<and>
   (N = 0 \<longrightarrow> mdct N = Inl ZeroDivisionError \<and> dct4 N None = Inl ZeroDivisionError) \<and>
   (N < 0 \<longrightarrow> mdct N = Inr \<lparr>nrows = 0, ncols = 0, rows = []\<rparr> \<and>
              dct4 N None = Inr \<lparr>nrows = 0, ncols = 0, rows = []\<rparr>)"
proof (intro conjI impI)
  assume "0 < N"
  then have "N \<noteq> 0" by simp
  then show "\<exists>m. mdct N = Inr m" "\<exists>m. dct4 N None = Inr m"
    by (simp_all add: mdct_nonzero dct4_nonzero)
next
  assume "N = 0"
  then show "mdct N = Inl ZeroDivisionError" "dct4 N None = Inl ZeroDivisionError"
    by (simp_all add: mdct_def dct4_def Let_def split_beta)
next
  assume "N < 0"
  then show "mdct N = Inr \<lparr>nrows = 0, ncols = 0, rows = []\<rparr>"
    "dct4 N None = Inr \<lparr>nrows = 0, ncols = 0, rows = []\<rparr>"
    by (simp_all add: mdct_nonzero dct4_nonzero)
qed

text \<open>
  The claim as first stated asks for an error at every \<open>N\<close> that is not positive; at
  \<open>N = - 1\<close> both functions return a matrix.
\<close>

theorem kernel_negative_size_counterexample:
  "mdct (- 1) = Inr \<lparr>nrows = 0, ncols = 0, rows = []\<rparr> \<and>
   dct4 (- 1) None = Inr \<lparr>nrows = 0, ncols = 0, rows = []\<rparr>"
  by (simp add: mdct_nonzero dct4_nonzero)

theorem kernel_failures_witness:
  "mdct 0 = Inl ZeroDivisionError \<and> dct4 0 None = Inl ZeroDivisionError \<and>
   mdct (- 3) = Inr \<lparr>nrows = 0, ncols = 0, rows = []\<rparr> \<and>
   dct4 (- 3) None = Inr \<lparr>nrows = 0, ncols = 0, rows = []\<rparr> \<and>
   (\<exists>m. mdct 2 = Inr m) \<and> (\<exists>m. dct4 2 None = Inr m)"
  using kernel_failures [of 0] kernel_failures [of "- 3"] kernel_failures [of 2]
  by simp

section \<open>Properties of the two-frame matrix\<close>

subsection \<open>Reading and writing blocks\<close>

lemma wf_matrix_row:
  "wf_matrix m \<Longrightarrow> i < nrows m \<Longrightarrow> length (rows m ! i) = ncols m"
  by (simp add: wf_matrix_def list_all_length)

lemma get_block_entry:
  assumes wf: "wf_matrix m" and r: "r1 \<le> nrows m" and c: "c1 \<le> ncols m"
    and a: "a < r1 - r0" and b: "b < c1 - c0"
  shows "entry (get_block m (r0, r1) (c0, c1)) a b = entry m (r0 + a) (c0 + b)"
proof -
  from wf have len: "length (rows m) = nrows m" by (simp add: wf_matrix_def)
  from a r have ra: "r0 + a < nrows m" by simp
  then have "length (rows m ! (r0 + a)) = ncols m" using wf by (simp add: wf_matrix_row)
  with b c have "c0 + b < length (rows m ! (r0 + a))" by simp
  moreover have "take (r1 - r0) (drop r0 (rows m)) ! a = rows m ! (r0 + a)"
    using a ra len by simp
  moreover have "a < length (take (r1 - r0) (drop r0 (rows m)))"
    using a r len by simp
  ultimately have "rows (get_block m (r0, r1) (c0, c1)) ! a ! b = rows m ! (r0 + a) ! (c0 + b)"
    using b by (simp add: get_block_def)
  then show ?thesis by (simp only: entry_def)
qed

lemma get_block_shape:
  assumes wf: "wf_matrix m" and r: "r1 \<le> nrows m" and c: "c1 \<le> ncols m"
  shows "wf_matrix (get_block m (r0, r1) (c0, c1))"
    and "nrows (get_block m (r0, r1) (c0, c1)) = r1 - r0"
    and "ncols (get_block m (r0, r1) (c0, c1)) = c1 - c0"
proof -
  from wf have len: "length (rows m) = nrows m"
    and row: "\<forall>x\<in>set (rows m). length x = ncols m"
    by (simp_all add: wf_matrix_def list_all_iff)
  have "length x = ncols m" if "x \<in> set (take (r1 - r0) (drop r0 (rows m)))" for x
    using that row by (meson in_set_dropD in_set_takeD)
  with r c len show "wf_matrix (get_block m (r0, r1) (c0, c1))"
    by (auto simp add: get_block_def wf_matrix_def list_all_iff)
  show "nrows (get_block m (r0, r1) (c0, c1)) = r1 - r0"
    "ncols (get_block m (r0, r1) (c0, c1)) = c1 - c0"
    by (simp_all add: get_block_def)
qed

lemma set_block_entry:
  assumes wf: "wf_matrix out" and r: "r0 \<le> r1" "r1 \<le> nrows out"
    and c: "c0 \<le> c1" "c1 \<le> ncols out"
    and src: "nrows src = r1 - r0" "ncols src = c1 - c0"
  shows "\<exists>out'. set_block out (r0, r1) (c0, c1) src = Inr out' \<and> wf_matrix out' \<and>
           nrows out' = nrows out \<and> ncols out' = ncols out \<and>
           (\<forall>i<nrows out. \<forall>j<ncols out.
              entry out' i j = (if r0 \<le> i \<and> i < r1 \<and> c0 \<le> j \<and> j < c1
                                then entry src (i - r0) (j - c0) else entry out i j))"
proof -
  define new_row where "new_row i =
     (if r0 \<le> i \<and> i < r1
      then take c0 (rows out ! i)
           @ map (\<lambda>j. rows src ! (if nrows src = 1 then 0 else i - r0)
                                 ! (if ncols src = 1 then 0 else j)) [0..<c1 - c0]
           @ drop c1 (rows out ! i)
      else rows out ! i)" for i
  define out' where "out' = out\<lparr>rows := map new_row [0..<nrows out]\<rparr>"
  from wf have len: "length (rows out) = nrows out" by (simp add: wf_matrix_def)
  have set_eq: "set_block out (r0, r1) (c0, c1) src = Inr out'"
    using src by (simp add: set_block_def out'_def new_row_def)
  have row_len: "length (new_row i) = ncols out" if "i < nrows out" for i
    using wf_matrix_row [OF wf that] c by (simp add: new_row_def)
  then have wf': "wf_matrix out'"
    by (simp add: wf_matrix_def out'_def list_all_iff)
  have ent: "entry out' i j = (if r0 \<le> i \<and> i < r1 \<and> c0 \<le> j \<and> j < c1
                                then entry src (i - r0) (j - c0) else entry out i j)"
    if i: "i < nrows out" and j: "j < ncols out" for i j
  proof (cases "r0 \<le> i \<and> i < r1")
    case False
    then have "new_row i = rows out ! i" by (simp only: new_row_def if_not_P if_False)
    with i False show ?thesis by (auto simp add: entry_def out'_def)
  next
    case True
    note row = wf_matrix_row [OF wf i]
    have ri: "(if nrows src = 1 then 0 else i - r0) = i - r0"
      using True src by auto
    let ?mid = "map (\<lambda>j. rows src ! (i - r0) ! (if ncols src = 1 then 0 else j)) [0..<c1 - c0]"
    from True ri have nr: "new_row i = take c0 (rows out ! i) @ ?mid @ drop c1 (rows out ! i)"
      by (simp add: new_row_def)
    from i have e: "entry out' i j = new_row i ! j"
      by (simp add: entry_def out'_def)
    from row c have l0: "length (take c0 (rows out ! i)) = c0" by simp
    have lm: "length ?mid = c1 - c0" by simp
    consider "j < c0" | "c0 \<le> j" "j < c1" | "c1 \<le> j" by linarith
    then show ?thesis
    proof cases
      case 1
      then have "new_row i ! j = rows out ! i ! j"
        unfolding nr using l0 by (simp add: nth_append)
      with 1 e show ?thesis by (simp add: entry_def)
    next
      case 2
      from 2 have lt: "j - c0 < c1 - c0" by simp
      with src have cj: "ncols src = Suc 0 \<Longrightarrow> j - c0 = 0" by simp
      from 2 have "new_row i ! j = ?mid ! (j - c0)"
        unfolding nr using l0 lm lt by (simp add: nth_append)
      also have "\<dots> = rows src ! (i - r0) ! (j - c0)"
        using lt cj by auto
      finally show ?thesis using 2 True e by (simp add: entry_def)
    next
      case 3
      with c have d: "j - c0 - (c1 - c0) = j - c1" and n1: "\<not> j < c0" and n2: "\<not> j - c0 < c1 - c0"
        by simp_all
      have "new_row i ! j = drop c1 (rows out ! i) ! (j - c1)"
        unfolding nr using l0 lm n1 n2 d by (simp add: nth_append)
      also have "\<dots> = rows out ! i ! j"
        using 3 row j by simp
      finally show ?thesis using 3 e by (simp add: entry_def)
    qed
  qed
  have "nrows out' = nrows out" "ncols out' = ncols out" by (simp_all add: out'_def)
  with set_eq wf' ent show ?thesis by blast
qed

lemma eye_shape: "wf_matrix (eye M)" "nrows (eye M) = M" "ncols (eye M) = M"
  by (simp_all add: eye_def wf_matrix_def list_all_iff)

lemma eye_entry: "i < M \<Longrightarrow> j < M \<Longrightarrow> entry (eye M) i j = (if i = j then 1 else 0)"
  by (simp add: eye_def entry_def)

lemma slice_both: "a \<le> b \<Longrightarrow> b \<le> n \<Longrightarrow> slice n (Some (int a)) (Some (int b)) = (a, b)"
  by (simp add: slice_def slice_index_def Let_def)

lemma slice_from: "a \<le> n \<Longrightarrow> slice n (Some (int a)) None = (a, n)"
  by (simp add: slice_def slice_index_def Let_def)

lemma slice_upto: "b \<le> n \<Longrightarrow> slice n None (Some (int b)) = (0, b)"
  by (simp add: slice_def slice_index_def Let_def)

lemma slice_trim: "slice (4 * N) (Some (int N)) (Some (- int N)) = (N, 3 * N)"
  by (cases "N = 0") (simp_all add: slice_def slice_index_def Let_def)

subsection \<open>The two-frame matrix of a folding matrix of \<open>2N\<close> rows and \<open>4N\<close> columns\<close>

text \<open>
  Claim C7, as amended. For every matrix \<open>data\<close> of shape \<open>(2N, M)\<close> with \<open>M = 4N\<close>,
  \<^verbatim>\<open>make_twoframe(data, trim)\<close> completes. With \<^verbatim>\<open>trim=False\<close> it returns an \<open>M\<close> by \<open>M\<close>
  matrix equal to the identity except that rows \<open>[N, 2N)\<close> at columns \<open>[N, 3N)\<close> hold the
  rows \<open>[N, 2N)\<close> and columns \<open>[2N, M)\<close> of \<open>data\<close>, and rows \<open>[2N, 3N)\<close> at columns
  \<open>[N, 3N)\<close> hold the rows \<open>[0, N)\<close> and columns \<open>[0, 2N)\<close> of \<open>data\<close>. With
  \<^verbatim>\<open>trim=True\<close> it returns the central block of that matrix, \<open>M - 2N\<close> by \<open>M - 2N\<close>:
  the first and the last \<open>N\<close> rows and columns are dropped.
\<close>

theorem make_twoframe_four_frames:
  assumes wf: "wf_matrix data" and r: "nrows data = 2 * N" and c: "ncols data = 4 * N"
  shows "\<exists>out t.
      make_twoframe data False = Inr out \<and> wf_matrix out \<and>
      nrows out = 4 * N \<and> ncols out = 4 * N \<and>
      (\<forall>i<4 * N. \<forall>j<4 * N.
         entry out i j =
           (if N \<le> i \<and> i < 2 * N \<and> N \<le> j \<and> j < 3 * N then entry data i (j + N)
            else if 2 * N \<le> i \<and> i < 3 * N \<and> N \<le> j \<and> j < 3 * N
                 then entry data (i - 2 * N) (j - N)
            else if i = j then 1 else 0)) \<and>
      make_twoframe data True = Inr t \<and> wf_matrix t \<and>
      nrows t = 2 * N \<and> ncols t = 2 * N \<and>
      (\<forall>i<2 * N. \<forall>j<2 * N. entry t i j = entry out (i + N) (j + N))"
proof -
  define src1 where "src1 = get_block data (N, 2 * N) (2 * N, 4 * N)"
  define src2 where "src2 = get_block data (0, N) (0, 2 * N)"
  have s1: "nrows src1 = 2 * N - N" "ncols src1 = 3 * N - N"
    using get_block_shape(2,3) [OF wf, of "2 * N" "4 * N" N "2 * N"] r c
    by (simp_all add: src1_def)
  have s2: "nrows src2 = 3 * N - 2 * N" "ncols src2 = 3 * N - N"
    using get_block_shape(2,3) [OF wf, of N "2 * N" 0 0] r c
    by (simp_all add: src2_def)
  have e1: "entry src1 a b = entry data (N + a) (2 * N + b)" if "a < N" "b < 2 * N" for a b
    unfolding src1_def using that r c by (intro get_block_entry [OF wf]) simp_all
  have e2: "entry src2 a b = entry data a b" if "a < N" "b < 2 * N" for a b
    unfolding src2_def using that r c get_block_entry [OF wf, of N "2 * N" a 0 b 0] by simp
  from set_block_entry [OF eye_shape(1), of N "2 * N" "4 * N" N "3 * N" src1] s1
  obtain out1 where o1: "set_block (eye (4 * N)) (N, 2 * N) (N, 3 * N) src1 = Inr out1"
    and wf1: "wf_matrix out1" and n1: "nrows out1 = 4 * N" "ncols out1 = 4 * N"
    and ent1: "\<And>i j. i < 4 * N \<Longrightarrow> j < 4 * N \<Longrightarrow>
        entry out1 i j = (if N \<le> i \<and> i < 2 * N \<and> N \<le> j \<and> j < 3 * N
                          then entry src1 (i - N) (j - N) else entry (eye (4 * N)) i j)"
    by (auto simp add: eye_shape)
  from set_block_entry [OF wf1, of "2 * N" "3 * N" N "3 * N" src2] s2 n1
  obtain out2 where o2: "set_block out1 (2 * N, 3 * N) (N, 3 * N) src2 = Inr out2"
    and wf2: "wf_matrix out2" and n2: "nrows out2 = 4 * N" "ncols out2 = 4 * N"
    and ent2: "\<And>i j. i < 4 * N \<Longrightarrow> j < 4 * N \<Longrightarrow>
        entry out2 i j = (if 2 * N \<le> i \<and> i < 3 * N \<and> N \<le> j \<and> j < 3 * N
                          then entry src2 (i - 2 * N) (j - N) else entry out1 i j)"
    by auto
  define t where "t = get_block out2 (N, 3 * N) (N, 3 * N)"
  have half: "int (2 * N div 2) = int N" by simp
  have untrimmed: "make_twoframe data False = Inr out2"
    unfolding make_twoframe_def r c half Let_def
    using o1 o2
      slice_both [of N "2 * N" "4 * N"] slice_both [of N "3 * N" "4 * N"]
      slice_both [of "2 * N" "3 * N" "4 * N"]
      slice_from [of N "2 * N"] slice_from [of "2 * N" "4 * N"]
      slice_upto [of N "2 * N"] slice_upto [of "2 * N" "4 * N"]
    by (simp add: src1_def src2_def)
  have trimmed: "make_twoframe data True = Inr t"
    unfolding make_twoframe_def r c half Let_def
    using o1 o2 slice_trim [of N]
      slice_both [of N "2 * N" "4 * N"] slice_both [of N "3 * N" "4 * N"]
      slice_both [of "2 * N" "3 * N" "4 * N"]
      slice_from [of N "2 * N"] slice_from [of "2 * N" "4 * N"]
      slice_upto [of N "2 * N"] slice_upto [of "2 * N" "4 * N"]
    by (simp add: src1_def src2_def t_def)
  have ent: "entry out2 i j =
           (if N \<le> i \<and> i < 2 * N \<and> N \<le> j \<and> j < 3 * N then entry data i (j + N)
            else if 2 * N \<le> i \<and> i < 3 * N \<and> N \<le> j \<and> j < 3 * N
                 then entry data (i - 2 * N) (j - N)
            else if i = j then 1 else 0)"
    if i: "i < 4 * N" and j: "j < 4 * N" for i j
  proof -
    consider (upper) "N \<le> i" "i < 2 * N" "N \<le> j" "j < 3 * N"
      | (lower) "2 * N \<le> i" "i < 3 * N" "N \<le> j" "j < 3 * N"
      | (rest) "\<not> (N \<le> i \<and> i < 2 * N \<and> N \<le> j \<and> j < 3 * N)"
               "\<not> (2 * N \<le> i \<and> i < 3 * N \<and> N \<le> j \<and> j < 3 * N)"
      by blast
    then show ?thesis
    proof cases
      case upper
      then have "entry out2 i j = entry src1 (i - N) (j - N)"
        using ent2 [OF i j] ent1 [OF i j] by simp
      also have "\<dots> = entry data (N + (i - N)) (2 * N + (j - N))"
        using upper by (intro e1) simp_all
      also have "\<dots> = entry data i (j + N)" using upper by (simp add: add.commute)
      finally show ?thesis using upper by simp
    next
      case lower
      then have "entry out2 i j = entry src2 (i - 2 * N) (j - N)"
        using ent2 [OF i j] by simp
      also have "\<dots> = entry data (i - 2 * N) (j - N)"
        using lower by (intro e2) simp_all
      finally show ?thesis using lower by simp
    next
      case rest
      have "entry out2 i j = entry (eye (4 * N)) i j"
        using ent2 [OF i j] ent1 [OF i j]
        by (simp only: if_not_P [OF rest(1)] if_not_P [OF rest(2)])
      then show ?thesis
        by (simp only: if_not_P [OF rest(1)] if_not_P [OF rest(2)] eye_entry [OF i j])
    qed
  qed
  have t_shape: "wf_matrix t" "nrows t = 2 * N" "ncols t = 2 * N"
    using get_block_shape [OF wf2, of "3 * N" "3 * N" N N] n2 by (simp_all add: t_def)
  have t_ent: "entry t i j = entry out2 (i + N) (j + N)" if "i < 2 * N" "j < 2 * N" for i j
    unfolding t_def using that n2 get_block_entry [OF wf2, of "3 * N" "3 * N" i N j N]
    by (simp add: add.commute)
  from untrimmed wf2 n2 ent trimmed t_shape t_ent show ?thesis by blast
qed

theorem make_twoframe_four_frames_witness:
  "make_twoframe \<lparr>nrows = 2, ncols = 4, rows = [[1, 2, 3, 4], [5, 6, 7, 8]]\<rparr> False
     = Inr \<lparr>nrows = 4, ncols = 4,
            rows = [[1, 0, 0, 0], [0, 7, 8, 0], [0, 1, 2, 0], [0, 0, 0, 1]]\<rparr> \<and>
   make_twoframe \<lparr>nrows = 2, ncols = 4, rows = [[1, 2, 3, 4], [5, 6, 7, 8]]\<rparr> True
     = Inr \<lparr>nrows = 2, ncols = 2, rows = [[7, 8], [1, 2]]\<rparr> \<and>
   entry \<lparr>nrows = 4, ncols = 4,
          rows = [[1, 0, 0, 0], [0, 7, 8, 0], [0, 1, 2, 0], [0, 0, 0, 1]]\<rparr> 1 2
     = entry \<lparr>nrows = 2, ncols = 4, rows = [[1, 2, 3, 4], [5, 6, 7, 8]]\<rparr> 1 3 \<and>
   entry \<lparr>nrows = 2, ncols = 2, rows = [[7, 8], [1, 2]]\<rparr> 1 0
     = entry \<lparr>nrows = 4, ncols = 4,
          rows = [[1, 0, 0, 0], [0, 7, 8, 0], [0, 1, 2, 0], [0, 0, 0, 1]]\<rparr> 2 1"
proof -
  let ?d = "\<lparr>nrows = 2, ncols = 4, rows = [[1, 2, 3, 4], [5, 6, 7, 8]]\<rparr>"
  let ?out = "\<lparr>nrows = 4, ncols = 4,
               rows = [[1, 0, 0, 0], [0, 7, 8, 0], [0, 1, 2, 0], [0, 0, 0, 1]]\<rparr>"
  let ?t = "\<lparr>nrows = 2, ncols = 2, rows = [[7, 8], [1, 2]]\<rparr>"
  have wf: "wf_matrix ?d" by (simp add: wf_matrix_def)
  have r: "nrows ?d = 2 * 1" and c: "ncols ?d = 4 * 1" by simp_all
  have run: "make_twoframe ?d False = Inr ?out" by code_simp
  have run_trim: "make_twoframe ?d True = Inr ?t" by code_simp
  from make_twoframe_four_frames [OF wf r c] run run_trim
  have a: "\<forall>i<4 * 1. \<forall>j<4 * 1.
         entry ?out i j =
           (if 1 \<le> i \<and> i < 2 * 1 \<and> 1 \<le> j \<and> j < 3 * 1 then entry ?d i (j + 1)
            else if 2 * 1 \<le> i \<and> i < 3 * 1 \<and> 1 \<le> j \<and> j < 3 * 1
                 then entry ?d (i - 2 * 1) (j - 1)
            else if i = j then 1 else 0)"
    and b: "\<forall>i<2 * 1. \<forall>j<2 * 1. entry ?t i j = entry ?out (i + 1) (j + 1)"
    by auto
  from a [rule_format, of 1 2] have "entry ?out 1 2 = entry ?d 1 3" by simp
  moreover from b [rule_format, of 1 0] have "entry ?t 1 0 = entry ?out 2 1"
    by (simp add: numeral_2_eq_2)
  ultimately show ?thesis using run run_trim by simp
qed

text \<open>
  The claim as first stated asks only for \<open>M \<ge> 2N\<close>. The block written first has the
  columns \<open>[N, 3N)\<close> of the output, clipped to \<open>M\<close>, and takes the columns \<open>[2N, M)\<close> of
  \<open>data\<close>: for a \<open>data\<close> of two rows and two columns (\<open>N = 1\<close>, \<open>M = 2\<close>) that is one
  column to fill from none, and the assignment raises.
\<close>

theorem make_twoframe_two_columns_counterexample:
  "wf_matrix \<lparr>nrows = 2, ncols = 2, rows = [[1, 2], [3, 4]]\<rparr> \<and>
   make_twoframe \<lparr>nrows = 2, ncols = 2, rows = [[1, 2], [3, 4]]\<rparr> False = Inl ValueError \<and>
   make_twoframe \<lparr>nrows = 2, ncols = 2, rows = [[1, 2], [3, 4]]\<rparr> True = Inl ValueError"
  by code_simp

end
